theory Spec2Isabelle
  imports Complex_Main "HOL-Library.List_Lexorder" "HOL-Library.Char_ord"
begin

section \<open>String primitives of the host language\<close>

text \<open>
  Strings are lists of code units, and a code unit is a \<^typ>\<open>char\<close>: the strings of
  this development are those whose UTF-16 code units lie below 256 (U+0000 to U+00FF),
  \<open>CHR n\<close> standing for the code unit \<open>n\<close>. The functions below are the string
  methods the sources call (\<^verbatim>\<open>startsWith\<close>, \<^verbatim>\<open>endsWith\<close>, \<^verbatim>\<open>includes\<close>,
  \<^verbatim>\<open>replace\<close> with a string pattern, \<^verbatim>\<open>split\<close>, \<^verbatim>\<open>join\<close>), written out
  so that they compute.
\<close>

definition startsWith :: "string \<Rightarrow> string \<Rightarrow> bool" where
  "startsWith s p = (take (length p) s = p)"

definition endsWith :: "string \<Rightarrow> string \<Rightarrow> bool" where
  "endsWith s p = (length p \<le> length s \<and> drop (length s - length p) s = p)"

fun str_includes :: "string \<Rightarrow> string \<Rightarrow> bool" where
  "str_includes [] p = (p = [])"
| "str_includes (c # cs) p = (startsWith (c # cs) p \<or> str_includes cs p)"

text \<open>The text before and after the first occurrence of a pattern, if there is one.\<close>

fun split_first :: "string \<Rightarrow> string \<Rightarrow> (string \<times> string) option" where
  "split_first p [] = (if p = [] then Some ([], []) else None)"
| "split_first p (c # cs) =
     (if startsWith (c # cs) p then Some ([], drop (length p) (c # cs))
      else (case split_first p cs of
              None \<Rightarrow> None
            | Some (b, a) \<Rightarrow> Some (c # b, a)))"

text \<open>\<^verbatim>\<open>s.replace(p, r)\<close> with a string pattern replaces the first occurrence only.\<close>

definition str_replace :: "string \<Rightarrow> string \<Rightarrow> string \<Rightarrow> string" where
  "str_replace s p r = (case split_first p s of None \<Rightarrow> s | Some (b, a) \<Rightarrow> b @ r @ a)"

lemma split_first_decomp: "split_first p s = Some (b, a) \<Longrightarrow> s = b @ p @ a"
proof (induction s arbitrary: b)
  case Nil
  then show ?case by (simp split: if_splits)
next
  case (Cons c cs)
  show ?case
  proof (cases "startsWith (c # cs) p")
    case True
    with Cons.prems have "b = []" and "a = drop (length p) (c # cs)" by auto
    moreover from True have "take (length p) (c # cs) = p" by (simp add: startsWith_def)
    ultimately show ?thesis by (metis append_Nil append_take_drop_id)
  next
    case False
    with Cons.prems obtain b' where "split_first p cs = Some (b', a)" and "b = c # b'"
      by (auto split: option.splits)
    with Cons.IH show ?thesis by simp
  qed
qed

lemma split_first_shorter:
  "p \<noteq> [] \<Longrightarrow> split_first p s = Some (b, a) \<Longrightarrow> length a < length s"
  by (drule split_first_decomp) simp

text \<open>\<^verbatim>\<open>s.split(sep)\<close>: all the pieces between occurrences of the separator, scanning
  from the left; an empty separator splits into single code units.\<close>

function str_split :: "string \<Rightarrow> string \<Rightarrow> string list" where
  "str_split sep s =
     (if sep = [] then map (\<lambda>c. [c]) s
      else (case split_first sep s of
              None \<Rightarrow> [s]
            | Some (b, a) \<Rightarrow> b # str_split sep a))"
  by pat_completeness auto
termination
  by (relation "measure (\<lambda>(sep, s). length s)") (auto simp: split_first_shorter)

declare str_split.simps [simp del]

fun str_join :: "string \<Rightarrow> string list \<Rightarrow> string" where
  "str_join sep [] = []"
| "str_join sep [x] = x"
| "str_join sep (x # y # ys) = x @ sep @ str_join sep (y # ys)"

section \<open>Stream decoder (callOpenRouterStream)\<close>

text \<open>
  One parsed transport chunk contributes the delta of its first choice: an optional
  dedicated reasoning field, an optional content fragment and an optional list of
  tool-call fragments. An absent or null field is \<open>None\<close>.
\<close>

record function_delta =
  fn_name :: "string option"
  fn_arguments :: "string option"

record tool_call_delta =
  tc_index :: nat
  tc_id :: "string option"
  tc_type :: "string option"
  tc_function :: "function_delta option"

record stream_delta =
  d_reasoning :: "string option"
  d_content :: "string option"
  d_tool_calls :: "tool_call_delta list option"

text \<open>The entry of \<^verbatim>\<open>toolCallsMap\<close> and the assembled ToolCall.\<close>

record tool_call_acc =
  acc_id :: string
  acc_type :: string
  acc_name :: string
  acc_arguments :: string

record tool_call =
  call_id :: string
  call_type :: string
  call_name :: string
  call_arguments :: string

datatype callback =
    OnToken string
  | OnReasoning string
  | OnToolCall tool_call
  | OnDone "string option" "tool_call list option"
  | OnError string

text \<open>
  The decoder's local variables. \<^verbatim>\<open>toolCallsMap\<close> is a Map, which iterates in
  insertion order, hence an association list with new keys appended at the end.
  \<open>emitted\<close> is the sequence of callback invocations made so far.
\<close>

record decoder_state =
  fullContent :: string
  insideThinkTag :: bool
  toolCallsMap :: "(nat \<times> tool_call_acc) list"
  emitted :: "callback list"

definition init_state :: decoder_state where
  "init_state = \<lparr>fullContent = [], insideThinkTag = False, toolCallsMap = [], emitted = []\<rparr>"

definition open_tag :: string where
  "open_tag = ''<think>''"

definition close_tag :: string where
  "close_tag = ''</think>''"

text \<open>Truthiness of an optional string: absent, null and the empty string are falsy.\<close>

fun truthy :: "string option \<Rightarrow> bool" where
  "truthy None = False"
| "truthy (Some s) = (s \<noteq> [])"

text \<open>\<^verbatim>\<open>x || ""\<close> on an optional string.\<close>

fun or_empty :: "string option \<Rightarrow> string" where
  "or_empty None = []"
| "or_empty (Some s) = s"

definition emit :: "callback \<Rightarrow> decoder_state \<Rightarrow> decoder_state" where
  "emit ev st = st\<lparr>emitted := emitted st @ [ev]\<rparr>"

text \<open>
  The body of \<^verbatim>\<open>if (delta.content)\<close>. The second component tells whether the
  closing-tag branch was taken, which ends the processing of the chunk
  (\<^verbatim>\<open>continue\<close>).
\<close>

definition handle_content :: "string \<Rightarrow> decoder_state \<Rightarrow> decoder_state \<times> bool" where
  "handle_content text0 st =
     (let opened = str_includes text0 open_tag;
          st1 = (if opened then st\<lparr>insideThinkTag := True\<rparr> else st);
          text = (if opened then str_replace text0 open_tag [] else text0)
      in if str_includes text close_tag then
           (let st2 = st1\<lparr>insideThinkTag := False\<rparr>;
                parts = str_split close_tag text;
                st3 = (case parts of
                         [] \<Rightarrow> st2
                       | p0 # _ \<Rightarrow> if p0 \<noteq> [] then emit (OnReasoning p0) st2 else st2);
                afterThink = str_join close_tag (tl parts);
                st4 = (if afterThink \<noteq> []
                       then emit (OnToken afterThink)
                              (st3\<lparr>fullContent := fullContent st3 @ afterThink\<rparr>)
                       else st3)
            in (st4, True))
         else if insideThinkTag st1 then (emit (OnReasoning text) st1, False)
         else (emit (OnToken text) (st1\<lparr>fullContent := fullContent st1 @ text\<rparr>), False))"

fun update_entry :: "nat \<Rightarrow> (tool_call_acc \<Rightarrow> tool_call_acc) \<Rightarrow>
    (nat \<times> tool_call_acc) list \<Rightarrow> (nat \<times> tool_call_acc) list" where
  "update_entry k f [] = []"
| "update_entry k f ((k', v) # m) =
     (if k' = k then (k', f v) # m else (k', v) # update_entry k f m)"

definition fn_name_of :: "tool_call_delta \<Rightarrow> string option" where
  "fn_name_of tc = (case tc_function tc of None \<Rightarrow> None | Some f \<Rightarrow> fn_name f)"

definition fn_arguments_of :: "tool_call_delta \<Rightarrow> string option" where
  "fn_arguments_of tc = (case tc_function tc of None \<Rightarrow> None | Some f \<Rightarrow> fn_arguments f)"

text \<open>The body of \<^verbatim>\<open>for (const tc of delta.tool_calls)\<close>.\<close>

definition tool_call_step ::
    "tool_call_delta \<Rightarrow> (nat \<times> tool_call_acc) list \<Rightarrow> (nat \<times> tool_call_acc) list" where
  "tool_call_step tc m =
     (let idx = tc_index tc;
          m1 = (if idx \<in> fst ` set m then m
                else m @ [(idx, \<lparr>acc_id = or_empty (tc_id tc),
                                  acc_type = (if truthy (tc_type tc) then or_empty (tc_type tc)
                                              else ''function''),
                                  acc_name = or_empty (fn_name_of tc),
                                  acc_arguments = []\<rparr>)])
      in update_entry idx
           (\<lambda>existing.
              let e1 = (if truthy (tc_id tc) then existing\<lparr>acc_id := or_empty (tc_id tc)\<rparr>
                        else existing);
                  e2 = (if truthy (fn_name_of tc) then e1\<lparr>acc_name := or_empty (fn_name_of tc)\<rparr>
                        else e1)
              in if truthy (fn_arguments_of tc)
                 then e2\<lparr>acc_arguments := acc_arguments e2 @ or_empty (fn_arguments_of tc)\<rparr>
                 else e2)
           m1)"

text \<open>One chunk: the reasoning field, then the content fragment, then the tool calls.\<close>

definition process_delta :: "stream_delta \<Rightarrow> decoder_state \<Rightarrow> decoder_state" where
  "process_delta d st =
     (let st1 = (if truthy (d_reasoning d) then emit (OnReasoning (or_empty (d_reasoning d))) st
                 else st);
          (st2, skip) = (if truthy (d_content d) then handle_content (or_empty (d_content d)) st1
                         else (st1, False))
      in if skip then st2
         else (case d_tool_calls d of
                 None \<Rightarrow> st2
               | Some tcs \<Rightarrow> st2\<lparr>toolCallsMap := fold tool_call_step tcs (toolCallsMap st2)\<rparr>))"

text \<open>After the channel has closed: build the ToolCalls and report the message.\<close>

definition assemble :: "tool_call_acc \<Rightarrow> tool_call" where
  "assemble tc = \<lparr>call_id = acc_id tc, call_type = ''function'',
                  call_name = acc_name tc, call_arguments = acc_arguments tc\<rparr>"

definition finish :: "decoder_state \<Rightarrow> decoder_state" where
  "finish st =
     (let toolCalls = map (\<lambda>(_, tc). assemble tc) (toolCallsMap st)
      in st\<lparr>emitted := emitted st @ map OnToolCall toolCalls @
               [OnDone (if fullContent st = [] then None else Some (fullContent st))
                       (if toolCalls = [] then None else Some toolCalls)]\<rparr>)"

definition decode :: "stream_delta list \<Rightarrow> decoder_state" where
  "decode ds = finish (fold process_delta ds init_state)"

text \<open>Observations on the callback sequence: the concatenated reasoning text and the
  concatenated content text.\<close>

fun reasoning_part :: "callback \<Rightarrow> string" where
  "reasoning_part (OnReasoning r) = r"
| "reasoning_part _ = []"

fun token_part :: "callback \<Rightarrow> string" where
  "token_part (OnToken t) = t"
| "token_part _ = []"

definition reasoning_text :: "decoder_state \<Rightarrow> string" where
  "reasoning_text st = concat (map reasoning_part (emitted st))"

definition content_text :: "decoder_state \<Rightarrow> string" where
  "content_text st = concat (map token_part (emitted st))"

definition content_delta :: "string \<Rightarrow> stream_delta" where
  "content_delta t = \<lparr>d_reasoning = None, d_content = Some t, d_tool_calls = None\<rparr>"

subsection \<open>String lemmas\<close>

lemma str_includes_iff: "str_includes s p = (split_first p s \<noteq> None)"
  by (induction s) (auto split: option.splits)

lemma str_includes_startsWith: "startsWith s p \<Longrightarrow> str_includes s p"
  by (cases s) (auto simp: startsWith_def)

lemma str_includes_decomp: "str_includes s p = (\<exists>b a. s = b @ p @ a)"
proof
  assume "str_includes s p"
  then obtain b a where "split_first p s = Some (b, a)"
    by (auto simp: str_includes_iff)
  then show "\<exists>b a. s = b @ p @ a" by (blast dest: split_first_decomp)
next
  assume "\<exists>b a. s = b @ p @ a"
  then obtain b a where "s = b @ p @ a" by blast
  then show "str_includes s p"
  proof (induction b arbitrary: s)
    case Nil
    then show ?case by (simp add: str_includes_startsWith startsWith_def)
  next
    case (Cons c b)
    then show ?case by simp
  qed
qed

lemma str_split_nonempty: "sep \<noteq> [] \<Longrightarrow> str_split sep s \<noteq> []"
  by (subst str_split.simps) (auto split: option.splits)

lemma str_split_first:
  "sep \<noteq> [] \<Longrightarrow> split_first sep s = Some (b, a) \<Longrightarrow> str_split sep s = b # str_split sep a"
  by (subst str_split.simps) simp

lemma str_join_cons: "xs \<noteq> [] \<Longrightarrow> str_join sep (x # xs) = x @ sep @ str_join sep xs"
  by (cases xs) auto

lemma str_join_split: "sep \<noteq> [] \<Longrightarrow> str_join sep (str_split sep s) = s"
proof (induction sep s rule: str_split.induct)
  case (1 sep s)
  show ?case
  proof (cases "split_first sep s")
    case None
    with "1.prems" show ?thesis by (subst str_split.simps) simp
  next
    case (Some ba)
    obtain b a where ba: "ba = (b, a)" by (cases ba)
    with Some "1.prems" have sp: "str_split sep s = b # str_split sep a"
      by (simp add: str_split_first)
    from "1.IH" [OF "1.prems" Some ba [symmetric]] "1.prems"
    have "str_join sep (str_split sep a) = a" by simp
    with sp show ?thesis
      using split_first_decomp [of sep s b a] Some ba "1.prems"
      by (simp add: str_join_cons str_split_nonempty)
  qed
qed

subsection \<open>Content routing\<close>

text \<open>A fragment that contains neither tag.\<close>

definition tagless :: "string \<Rightarrow> bool" where
  "tagless t = (\<not> str_includes t open_tag \<and> \<not> str_includes t close_tag)"

lemma close_tag_nonempty: "close_tag \<noteq> []"
  by (simp add: close_tag_def)

lemma open_tag_nonempty: "open_tag \<noteq> []"
  by (simp add: open_tag_def)

lemma handle_content_plain:
  assumes "tagless t"
  shows "handle_content t st =
    (if insideThinkTag st then (emit (OnReasoning t) st, False)
     else (emit (OnToken t) (st\<lparr>fullContent := fullContent st @ t\<rparr>), False))"
  using assms by (simp add: handle_content_def tagless_def)

lemma handle_content_open:
  assumes "str_includes t open_tag" "\<not> str_includes (str_replace t open_tag []) close_tag"
  shows "handle_content t st =
    (emit (OnReasoning (str_replace t open_tag [])) (st\<lparr>insideThinkTag := True\<rparr>), False)"
  using assms by (simp add: handle_content_def)

text \<open>The closing-tag branch, for the text that is left once an opening tag, if there is
  one, has been removed.\<close>

lemma handle_content_split:
  assumes "split_first close_tag
             (if str_includes t open_tag then str_replace t open_tag [] else t) = Some (r, d)"
  shows "handle_content t st =
    (let st2 = st\<lparr>insideThinkTag := False\<rparr>;
         st3 = (if r \<noteq> [] then emit (OnReasoning r) st2 else st2)
     in if d \<noteq> [] then emit (OnToken d) (st3\<lparr>fullContent := fullContent st3 @ d\<rparr>) else st3,
     True)"
proof -
  let ?text = "if str_includes t open_tag then str_replace t open_tag [] else t"
  from assms have inc: "str_includes ?text close_tag" by (simp add: str_includes_iff)
  from assms have sp: "str_split close_tag ?text = r # str_split close_tag d"
    by (simp add: str_split_first close_tag_nonempty)
  have j: "str_join close_tag (str_split close_tag d) = d"
    by (simp add: str_join_split close_tag_nonempty)
  show ?thesis
  proof (cases "str_includes t open_tag")
    case True
    with inc sp show ?thesis by (simp add: handle_content_def j Let_def)
  next
    case False
    with inc sp show ?thesis by (simp add: handle_content_def j Let_def)
  qed
qed

lemma process_content_delta:
  "process_delta (content_delta t) st = (if t = [] then st else fst (handle_content t st))"
  by (simp add: process_delta_def content_delta_def split: prod.splits)

text \<open>What the claims observe of a decoder state: reasoning text, content text, assembled
  content and mode.\<close>

definition obs :: "decoder_state \<Rightarrow> string \<times> string \<times> string \<times> bool" where
  "obs st = (reasoning_text st, content_text st, fullContent st, insideThinkTag st)"

lemma handle_content_map [simp]: "toolCallsMap (fst (handle_content t st)) = toolCallsMap st"
  by (simp add: handle_content_def Let_def emit_def split: list.splits)

lemma fold_content_map:
  "toolCallsMap (fold process_delta (map content_delta fs) st) = toolCallsMap st"
  by (induction fs arbitrary: st) (simp_all add: process_content_delta)

lemma finish_texts:
  "reasoning_text (finish st) = reasoning_text st \<and> content_text (finish st) = content_text st"
proof -
  have "concat (map reasoning_part (map OnToolCall cs)) = [] \<and>
        concat (map token_part (map OnToolCall cs)) = []" for cs
    by (induction cs) simp_all
  then show ?thesis
    by (simp add: finish_def reasoning_text_def content_text_def Let_def del: map_map)
qed

subsection \<open>The routing that the specification asks for\<close>

text \<open>
  The specification's words for a text: what stands between an opening tag and the
  matching closing tag is reasoning, what stands outside is content. \<open>route inside t\<close>
  reads \<open>t\<close> from the left, in content mode up to the next opening tag and in reasoning
  mode up to the next closing tag; it yields the reasoning text, the content text and the
  mode at the end. \<open>route_all\<close> does so fragment after fragment, carrying the mode over:
  a tag counts where it lies wholly inside one fragment.
\<close>

function route :: "bool \<Rightarrow> string \<Rightarrow> string \<times> string \<times> bool" where
  "route inside t =
     (if inside then
        (case split_first close_tag t of
           None \<Rightarrow> (t, [], True)
         | Some (r, rest) \<Rightarrow> (case route False rest of (r', c', m) \<Rightarrow> (r @ r', c', m)))
      else
        (case split_first open_tag t of
           None \<Rightarrow> ([], t, False)
         | Some (c, rest) \<Rightarrow> (case route True rest of (r', c', m) \<Rightarrow> (r', c @ c', m))))"
  by pat_completeness auto
termination
  by (relation "measure (\<lambda>(inside, t). length t)")
    (auto intro: split_first_shorter [OF close_tag_nonempty]
       split_first_shorter [OF open_tag_nonempty])

declare route.simps [simp del]

fun route_all :: "bool \<Rightarrow> string list \<Rightarrow> string \<times> string \<times> bool" where
  "route_all inside [] = ([], [], inside)"
| "route_all inside (f # fs) =
     (case route inside f of
        (r, c, m) \<Rightarrow> (case route_all m fs of (r', c', m') \<Rightarrow> (r @ r', c @ c', m')))"

text \<open>
  The fragments on which the decoder does route so. Received in content mode, a fragment
  holds no tag, or it begins with the opening tag and holds no opening tag after its
  first closing tag. Received in reasoning mode, it holds no opening tag.
\<close>

definition well_placed :: "bool \<Rightarrow> string \<Rightarrow> bool" where
  "well_placed inside f =
     (if inside then \<not> str_includes f open_tag
      else tagless f \<or>
           (startsWith f open_tag \<and>
            (case split_first close_tag (drop (length open_tag) f) of
               None \<Rightarrow> True
             | Some (r, d) \<Rightarrow> \<not> str_includes d open_tag)))"

fun tags_well_placed :: "bool \<Rightarrow> string list \<Rightarrow> bool" where
  "tags_well_placed inside [] = True"
| "tags_well_placed inside (f # fs) =
     (well_placed inside f \<and> tags_well_placed (snd (snd (route inside f))) fs)"

lemma split_first_None: "\<not> str_includes s p \<Longrightarrow> split_first p s = None"
  by (cases "split_first p s") (auto simp: str_includes_iff)

lemma route_no_close: "\<not> str_includes t close_tag \<Longrightarrow> route True t = (t, [], True)"
  by (subst route.simps) (simp add: split_first_None)

lemma route_no_open: "\<not> str_includes t open_tag \<Longrightarrow> route False t = ([], t, False)"
  by (subst route.simps) (simp add: split_first_None)

lemma route_close:
  "split_first close_tag t = Some (r, d) \<Longrightarrow> \<not> str_includes d open_tag \<Longrightarrow>
   route True t = (r, d, False)"
  by (subst route.simps) (simp add: route_no_open)

lemma route_open:
  "split_first open_tag t = Some (c, rest) \<Longrightarrow>
   route False t = (case route True rest of (r', c', m) \<Rightarrow> (r', c @ c', m))"
  by (subst route.simps) simp

lemma str_includes_after:
  "split_first q t = Some (b, a) \<Longrightarrow> str_includes a p \<Longrightarrow> str_includes t p"
proof -
  assume "split_first q t = Some (b, a)" and "str_includes a p"
  then obtain x y where "t = b @ q @ a" and "a = x @ p @ y"
    by (auto simp: str_includes_decomp dest: split_first_decomp)
  then have "t = (b @ q @ x) @ p @ y" by simp
  then show ?thesis unfolding str_includes_decomp by blast
qed

text \<open>One well-placed fragment is routed as the specification asks.\<close>

lemma fragment_routed:
  assumes "well_placed (insideThinkTag st) f"
  shows "obs (process_delta (content_delta f) st) =
    (case route (insideThinkTag st) f of
       (r, c, m) \<Rightarrow> (reasoning_text st @ r, content_text st @ c, fullContent st @ c, m))"
proof (cases "insideThinkTag st")
  case inside: True
  with assms have no_open: "\<not> str_includes f open_tag" by (simp add: well_placed_def)
  show ?thesis
  proof (cases "split_first close_tag f")
    case None
    then have nc: "\<not> str_includes f close_tag" by (simp add: str_includes_iff)
    with no_open have "tagless f" by (simp add: tagless_def)
    with inside nc show ?thesis
      by (simp add: route_no_close process_content_delta handle_content_plain obs_def emit_def
          reasoning_text_def content_text_def)
  next
    case (Some rd)
    obtain r d where rd: "rd = (r, d)" by (cases rd)
    with Some have sp: "split_first close_tag f = Some (r, d)" by simp
    then have "f \<noteq> []" by (auto simp: close_tag_def)
    moreover from sp no_open have "\<not> str_includes d open_tag"
      by (blast dest: str_includes_after)
    ultimately show ?thesis using inside sp no_open
      by (simp add: route_close process_content_delta handle_content_split obs_def emit_def
          reasoning_text_def content_text_def Let_def)
  qed
next
  case outside: False
  show ?thesis
  proof (cases "tagless f")
    case True
    with outside show ?thesis
      by (simp add: route_no_open tagless_def process_content_delta handle_content_plain
          obs_def emit_def reasoning_text_def content_text_def)
  next
    case False
    let ?a = "drop (length open_tag) f"
    from False outside assms have st: "startsWith f open_tag"
      and later: "case split_first close_tag ?a of
                    None \<Rightarrow> True | Some (r, d) \<Rightarrow> \<not> str_includes d open_tag"
      by (simp_all add: well_placed_def)
    from st have ne: "f \<noteq> []" by (auto simp: startsWith_def open_tag_def)
    from st ne have so: "split_first open_tag f = Some ([], ?a)" by (cases f) simp_all
    from st have inc: "str_includes f open_tag" by (rule str_includes_startsWith)
    from so have rep: "str_replace f open_tag [] = ?a" by (simp add: str_replace_def)
    show ?thesis
    proof (cases "split_first close_tag ?a")
      case None
      then have nc: "\<not> str_includes ?a close_tag" by (simp add: str_includes_iff)
      with inc rep have "handle_content f st =
          (emit (OnReasoning ?a) (st\<lparr>insideThinkTag := True\<rparr>), False)"
        by (simp add: handle_content_open)
      with outside ne nc so show ?thesis
        by (simp add: route_open route_no_close process_content_delta obs_def emit_def
            reasoning_text_def content_text_def)
    next
      case (Some rd)
      obtain r d where rd: "rd = (r, d)" by (cases rd)
      with Some have sp: "split_first close_tag ?a = Some (r, d)" by simp
      with later have nd: "\<not> str_includes d open_tag" by simp
      from sp inc rep have "split_first close_tag
          (if str_includes f open_tag then str_replace f open_tag [] else f) = Some (r, d)"
        by simp
      from handle_content_split [OF this, of st] outside ne so sp nd show ?thesis
        by (simp add: route_open route_close process_content_delta obs_def emit_def
            reasoning_text_def content_text_def Let_def)
    qed
  qed
qed

lemma stream_routed:
  assumes "tags_well_placed (insideThinkTag st) fs"
  shows "obs (fold process_delta (map content_delta fs) st) =
    (case route_all (insideThinkTag st) fs of
       (r, c, m) \<Rightarrow> (reasoning_text st @ r, content_text st @ c, fullContent st @ c, m))"
  using assms
proof (induction fs arbitrary: st)
  case Nil
  then show ?case by (simp add: obs_def)
next
  case (Cons f fs)
  let ?st' = "process_delta (content_delta f) st"
  obtain r c m where rt: "route (insideThinkTag st) f = (r, c, m)"
    by (cases "route (insideThinkTag st) f")
  from Cons.prems have wp: "well_placed (insideThinkTag st) f" by simp
  from fragment_routed [OF wp] rt
  have o: "obs ?st' = (reasoning_text st @ r, content_text st @ c, fullContent st @ c, m)"
    by simp
  then have m: "insideThinkTag ?st' = m" by (simp add: obs_def)
  with Cons.prems rt have "tags_well_placed (insideThinkTag ?st') fs" by simp
  from Cons.IH [OF this] o m rt show ?case
    by (simp add: obs_def split: prod.splits)
qed

subsection \<open>Claims about inline tag detection\<close>

text \<open>
  Claim C1 (as amended). For every sequence of content fragments in which the tags are
  well placed (a fragment received in content mode holds no tag, or begins with the
  opening tag and holds no opening tag after its first closing tag; a fragment received
  in reasoning mode holds no opening tag), the decoder routes the text between an
  opening tag and the matching closing tag to reasoning events and the text outside
  the tags to content events and to the assembled content, with no cross-contamination,
  where a tag counts if it lies wholly inside one fragment; the reasoning mode persists
  across chunk boundaries.
\<close>

theorem think_tags_within_fragments:
  assumes "tags_well_placed False fs"
  shows "reasoning_text (decode (map content_delta fs)) = fst (route_all False fs) \<and>
         content_text (decode (map content_delta fs)) = fst (snd (route_all False fs)) \<and>
         insideThinkTag (decode (map content_delta fs)) = snd (snd (route_all False fs)) \<and>
         last (emitted (decode (map content_delta fs))) =
           OnDone (if fst (snd (route_all False fs)) = [] then None
                   else Some (fst (snd (route_all False fs)))) None"
proof -
  let ?st = "fold process_delta (map content_delta fs) init_state"
  obtain r c m where ra: "route_all False fs = (r, c, m)" by (cases "route_all False fs")
  from assms have "tags_well_placed (insideThinkTag init_state) fs" by (simp add: init_state_def)
  from stream_routed [OF this] ra have o: "obs ?st = (r, c, c, m)"
    by (simp add: init_state_def reasoning_text_def content_text_def)
  have tm: "toolCallsMap ?st = []"
    using fold_content_map [of fs init_state] by (simp add: init_state_def)
  from o have "reasoning_text ?st = r" and "content_text ?st = c" and "fullContent ?st = c"
    and "insideThinkTag ?st = m"
    by (simp_all add: obs_def)
  then show ?thesis
    using tm ra by (simp add: decode_def finish_texts) (simp add: finish_def)
qed

text \<open>Two think blocks, the first cut into two chunks between its tags, the second with
  both tags in one chunk.\<close>

theorem think_tags_within_fragments_witness:
  "reasoning_text (decode (map content_delta
      [''<think>hello'', '' world</think>answer'', '' and '', ''<think>more</think>text''])) =
     ''hello worldmore'' \<and>
   content_text (decode (map content_delta
      [''<think>hello'', '' world</think>answer'', '' and '', ''<think>more</think>text''])) =
     ''answer and text'' \<and>
   last (emitted (decode (map content_delta
      [''<think>hello'', '' world</think>answer'', '' and '', ''<think>more</think>text'']))) =
     OnDone (Some ''answer and text'') None"
proof -
  have r: "route_all False
      [''<think>hello'', '' world</think>answer'', '' and '', ''<think>more</think>text''] =
      (''hello worldmore'', ''answer and text'', False)"
    by code_simp
  have w: "tags_well_placed False
      [''<think>hello'', '' world</think>answer'', '' and '', ''<think>more</think>text'']"
    by code_simp
  from think_tags_within_fragments [OF w] r show ?thesis by simp
qed

text \<open>
  Claim C1 as stated fails. In the chunk sequence of the specification both tags are cut
  by a chunk boundary, no fragment contains a whole tag, and all four fragments are
  emitted as content. Where the tags are whole but not well placed, text crosses over:
  text before an opening tag in the same fragment goes to reasoning; so does text before
  a closing tag that no opening tag precedes; text after a second opening tag in a
  fragment that holds a closing tag goes to content; and an opening tag that arrives in
  reasoning mode is taken out of the reasoning text.
\<close>

theorem split_tags_counterexample:
  "emitted (decode (map content_delta
      [''<thi'', ''nk>hello'', '' world</thi'', ''nk>answer''])) =
     [OnToken ''<thi'', OnToken ''nk>hello'', OnToken '' world</thi'', OnToken ''nk>answer'',
      OnDone (Some ''<think>hello world</think>answer'') None] \<and>
   reasoning_text (decode (map content_delta
      [''<thi'', ''nk>hello'', '' world</thi'', ''nk>answer''])) \<noteq> ''hello world'' \<and>
   content_text (decode (map content_delta
      [''<thi'', ''nk>hello'', '' world</thi'', ''nk>answer''])) \<noteq> ''answer'' \<and>
   emitted (decode (map content_delta [''a<think>b'', ''c</think>d''])) =
     [OnReasoning ''ab'', OnReasoning ''c'', OnToken ''d'', OnDone (Some ''d'') None] \<and>
   emitted (decode (map content_delta [''a</think>b''])) =
     [OnReasoning ''a'', OnToken ''b'', OnDone (Some ''b'') None] \<and>
   emitted (decode (map content_delta [''<think>a'', ''b</think>c<think>d''])) =
     [OnReasoning ''a'', OnReasoning ''b'', OnToken ''cd'', OnDone (Some ''cd'') None] \<and>
   emitted (decode (map content_delta [''<think>a'', ''b<think>c''])) =
     [OnReasoning ''a'', OnReasoning ''bc'', OnDone None None]"
  by (simp add: decode_def content_delta_def process_delta_def handle_content_def
      init_state_def open_tag_def close_tag_def startsWith_def emit_def finish_def
      reasoning_text_def content_text_def str_replace_def str_split.simps Let_def)

text \<open>
  Claim C10 (as amended). A content fragment that contains the opening tag and, once the
  first opening tag is removed, no closing tag, yields exactly one reasoning event that
  carries the fragment without that tag marker (text before the tag included); it
  yields no content event, leaves the assembled content unchanged and switches the
  reasoning mode on.
\<close>

theorem open_tag_fragment_is_reasoning:
  assumes "str_includes t open_tag"
    and "\<not> str_includes (str_replace t open_tag []) close_tag"
  shows "process_delta (content_delta t) st =
    st\<lparr>insideThinkTag := True,
       emitted := emitted st @ [OnReasoning (str_replace t open_tag [])]\<rparr>"
proof -
  from assms(1) have "t \<noteq> []" by (auto simp: open_tag_def)
  then show ?thesis
    by (simp add: process_content_delta handle_content_open [OF assms] emit_def)
qed

theorem open_tag_fragment_is_reasoning_witness:
  "process_delta (content_delta ''intro<think>plan'') init_state =
     init_state\<lparr>insideThinkTag := True, emitted := [OnReasoning ''introplan'']\<rparr>"
  using open_tag_fragment_is_reasoning [of "''intro<think>plan''" init_state]
  by (simp add: open_tag_def close_tag_def startsWith_def str_replace_def init_state_def)

text \<open>
  Claim C10 as stated fails: the closing tag is looked for after the opening tag has been
  removed, so a fragment that holds an opening tag inside the characters of a closing
  tag contains no closing tag, yet it is split at one and emits a content event.
\<close>

theorem open_tag_fragment_counterexample:
  "str_includes ''a</thi<think>nk>b'' open_tag \<and>
   \<not> str_includes ''a</thi<think>nk>b'' close_tag \<and>
   emitted (process_delta (content_delta ''a</thi<think>nk>b'') init_state) =
     [OnReasoning ''a'', OnToken ''b''] \<and>
   fullContent (process_delta (content_delta ''a</thi<think>nk>b'') init_state) = ''b'' \<and>
   \<not> insideThinkTag (process_delta (content_delta ''a</thi<think>nk>b'') init_state)"
  by (simp add: content_delta_def process_delta_def handle_content_def init_state_def
      open_tag_def close_tag_def startsWith_def emit_def str_replace_def str_split.simps
      Let_def)

subsection \<open>Tool-call fragments\<close>

text \<open>
  What the decoder is to assemble, as functions of the tool-call fragments in their order
  of arrival: the indices in the order of their first occurrence; for one index, the last
  non-empty id and name among its fragments and the concatenation of their argument
  texts.
\<close>

fun first_occurrences :: "nat list \<Rightarrow> nat list" where
  "first_occurrences [] = []"
| "first_occurrences (x # xs) = x # filter (\<lambda>y. y \<noteq> x) (first_occurrences xs)"

definition last_truthy :: "string option list \<Rightarrow> string" where
  "last_truthy os = fold (\<lambda>v acc. if truthy v then or_empty v else acc) os []"

definition fragments_at :: "nat \<Rightarrow> tool_call_delta list \<Rightarrow> tool_call_delta list" where
  "fragments_at i tcs = filter (\<lambda>tc. tc_index tc = i) tcs"

definition expected_call :: "tool_call_delta list \<Rightarrow> nat \<Rightarrow> tool_call" where
  "expected_call tcs i =
     \<lparr>call_id = last_truthy (map tc_id (fragments_at i tcs)),
      call_type = ''function'',
      call_name = last_truthy (map fn_name_of (fragments_at i tcs)),
      call_arguments = concat (map (\<lambda>tc. or_empty (fn_arguments_of tc)) (fragments_at i tcs))\<rparr>"

definition expected_calls :: "tool_call_delta list \<Rightarrow> tool_call list" where
  "expected_calls tcs = map (expected_call tcs) (first_occurrences (map tc_index tcs))"

text \<open>The tool-call fragments of a sequence of chunks; the chunks whose content takes
  the closing-tag branch (which leaves the chunk before its tool calls are read); and
  among these the chunks that carry tool-call fragments, which are thereby lost.\<close>

definition all_fragments :: "stream_delta list \<Rightarrow> tool_call_delta list" where
  "all_fragments ds = concat (map (\<lambda>d. case d_tool_calls d of None \<Rightarrow> [] | Some tcs \<Rightarrow> tcs) ds)"

definition closes_think :: "stream_delta \<Rightarrow> bool" where
  "closes_think d =
     (truthy (d_content d) \<and>
      str_includes (if str_includes (or_empty (d_content d)) open_tag
                    then str_replace (or_empty (d_content d)) open_tag []
                    else or_empty (d_content d)) close_tag)"

definition drops_fragments :: "stream_delta \<Rightarrow> bool" where
  "drops_fragments d =
     (closes_think d \<and> (case d_tool_calls d of None \<Rightarrow> False | Some tcs \<Rightarrow> tcs \<noteq> []))"

fun toolcall_part :: "callback \<Rightarrow> tool_call list" where
  "toolcall_part (OnToolCall c) = [c]"
| "toolcall_part _ = []"

definition emitted_tool_calls :: "decoder_state \<Rightarrow> tool_call list" where
  "emitted_tool_calls st = concat (map toolcall_part (emitted st))"

lemma set_first_occurrences [simp]: "set (first_occurrences xs) = set xs"
  by (induction xs) auto

lemma distinct_first_occurrences [simp]: "distinct (first_occurrences xs)"
  by (induction xs) auto

lemma first_occurrences_snoc:
  "first_occurrences (xs @ [x]) =
     (if x \<in> set xs then first_occurrences xs else first_occurrences xs @ [x])"
  by (induction xs) auto

text \<open>The effect of one fragment on the ToolCall assembled for its index.\<close>

definition upd_call :: "tool_call_delta \<Rightarrow> tool_call \<Rightarrow> tool_call" where
  "upd_call tc c =
     \<lparr>call_id = (if truthy (tc_id tc) then or_empty (tc_id tc) else call_id c),
      call_type = ''function'',
      call_name = (if truthy (fn_name_of tc) then or_empty (fn_name_of tc) else call_name c),
      call_arguments = call_arguments c @ or_empty (fn_arguments_of tc)\<rparr>"

definition blank_call :: tool_call where
  "blank_call = \<lparr>call_id = [], call_type = ''function'', call_name = [], call_arguments = []\<rparr>"

definition calls_view :: "(nat \<times> tool_call_acc) list \<Rightarrow> (nat \<times> tool_call) list" where
  "calls_view m = map (\<lambda>(i, e). (i, assemble e)) m"

lemma or_empty_untruthy: "\<not> truthy v \<Longrightarrow> or_empty v = []"
  by (cases v) auto

lemma update_entry_append_new:
  "k \<notin> fst ` set m \<Longrightarrow> update_entry k f (m @ [(k, v)]) = m @ [(k, f v)]"
  by (induction m) auto

lemma update_entry_map:
  "distinct (map fst m) \<Longrightarrow>
   update_entry k f m = map (\<lambda>(i, e). if i = k then (i, f e) else (i, e)) m"
proof (induction m)
  case Nil
  then show ?case by simp
next
  case (Cons p m)
  obtain i e where p: "p = (i, e)" by (cases p)
  show ?case
  proof (cases "i = k")
    case True
    with Cons.prems p have "k \<notin> fst ` set m" by auto
    then have "map (\<lambda>(i, e). if i = k then (i, f e) else (i, e)) m = m"
      by (induction m) auto
    with True p show ?thesis by simp
  next
    case False
    with Cons p show ?thesis by simp
  qed
qed

lemma tool_call_step_view:
  assumes "distinct (map fst m)"
  shows "calls_view (tool_call_step tc m) =
     (if tc_index tc \<in> fst ` set m
      then map (\<lambda>(i, c). if i = tc_index tc then (i, upd_call tc c) else (i, c)) (calls_view m)
      else calls_view m @ [(tc_index tc, upd_call tc blank_call)])"
proof (cases "tc_index tc \<in> fst ` set m")
  case True
  then show ?thesis using assms
    by (simp add: tool_call_step_def update_entry_map calls_view_def assemble_def upd_call_def
        Let_def or_empty_untruthy split_def)
next
  case False
  then show ?thesis
    by (simp add: tool_call_step_def update_entry_append_new calls_view_def assemble_def
        upd_call_def blank_call_def Let_def or_empty_untruthy)
qed

lemma fst_calls_view [simp]: "map fst (calls_view m) = map fst m"
  by (simp add: calls_view_def split_def)

lemma last_truthy_snoc:
  "last_truthy (vs @ [v]) = (if truthy v then or_empty v else last_truthy vs)"
  by (simp add: last_truthy_def)

lemma expected_call_snoc:
  "expected_call (tcs @ [tc]) i =
     (if i = tc_index tc then upd_call tc (expected_call tcs i) else expected_call tcs i)"
  by (simp add: expected_call_def fragments_at_def upd_call_def last_truthy_snoc)

lemma expected_call_fresh:
  "i \<notin> tc_index ` set tcs \<Longrightarrow> expected_call tcs i = blank_call"
proof -
  assume "i \<notin> tc_index ` set tcs"
  then have "fragments_at i tcs = []" by (auto simp: fragments_at_def filter_empty_conv)
  then show ?thesis by (simp add: expected_call_def blank_call_def last_truthy_def)
qed

lemma fold_tool_call_step_view:
  "calls_view (fold tool_call_step tcs []) =
     map (\<lambda>i. (i, expected_call tcs i)) (first_occurrences (map tc_index tcs))"
proof (induction tcs rule: rev_induct)
  case Nil
  then show ?case by (simp add: calls_view_def)
next
  case (snoc tc tcs)
  let ?m = "fold tool_call_step tcs []"
  have keys: "map fst ?m = first_occurrences (map tc_index tcs)"
    using snoc.IH [THEN arg_cong, of "map fst"] by (simp add: comp_def)
  then have dist: "distinct (map fst ?m)" by simp
  have mem: "tc_index tc \<in> fst ` set ?m \<longleftrightarrow> tc_index tc \<in> tc_index ` set tcs"
    using keys [THEN arg_cong, of set] by simp
  show ?case
  proof (cases "tc_index tc \<in> tc_index ` set tcs")
    case True
    then show ?thesis
      using tool_call_step_view [OF dist, of tc] mem snoc.IH
      by (simp add: first_occurrences_snoc expected_call_snoc comp_def)
  next
    case False
    then have ne: "\<forall>t \<in> set tcs. tc_index t \<noteq> tc_index tc" by (metis imageI)
    have "map (\<lambda>i. (i, expected_call (tcs @ [tc]) i)) (first_occurrences (map tc_index tcs)) =
          map (\<lambda>i. (i, expected_call tcs i)) (first_occurrences (map tc_index tcs))"
      using ne by (intro map_cong refl) (auto simp: expected_call_snoc)
    then show ?thesis
      using tool_call_step_view [OF dist, of tc] mem snoc.IH False
      by (simp add: first_occurrences_snoc expected_call_snoc expected_call_fresh)
  qed
qed

lemma assembled_calls:
  "map (\<lambda>(_, tc). assemble tc) (fold tool_call_step tcs []) = expected_calls tcs"
proof -
  have "map (\<lambda>(_, tc). assemble tc) (fold tool_call_step tcs []) =
        map snd (calls_view (fold tool_call_step tcs []))"
    by (simp add: calls_view_def split_def)
  then show ?thesis by (simp add: fold_tool_call_step_view expected_calls_def comp_def)
qed

lemma handle_content_skip:
  "snd (handle_content t st) =
     str_includes (if str_includes t open_tag then str_replace t open_tag [] else t) close_tag"
  by (simp add: handle_content_def Let_def)

lemma handle_content_no_calls [simp]:
  "emitted_tool_calls (fst (handle_content t st)) = emitted_tool_calls st"
  by (simp add: handle_content_def Let_def emit_def emitted_tool_calls_def split: list.splits)

lemma process_delta_map:
  assumes "\<not> drops_fragments d"
  shows "toolCallsMap (process_delta d st) =
     fold tool_call_step (case d_tool_calls d of None \<Rightarrow> [] | Some tcs \<Rightarrow> tcs) (toolCallsMap st)"
proof (cases "truthy (d_content d)")
  case True
  show ?thesis
  proof (cases "closes_think d")
    case False
    with True have "\<not> snd (handle_content (or_empty (d_content d)) st')" for st'
      by (simp add: closes_think_def handle_content_skip)
    with True show ?thesis
      by (simp add: process_delta_def Let_def emit_def split_def split: option.splits)
  next
    case closes: True
    with True have skip: "snd (handle_content (or_empty (d_content d)) st')" for st'
      by (simp add: closes_think_def handle_content_skip)
    from closes assms have "(case d_tool_calls d of None \<Rightarrow> [] | Some tcs \<Rightarrow> tcs) = []"
      by (auto simp: drops_fragments_def split: option.splits)
    with True skip show ?thesis
      by (simp add: process_delta_def Let_def emit_def split_def)
  qed
next
  case False
  then show ?thesis
    by (simp add: process_delta_def Let_def emit_def split: option.splits)
qed

lemma process_delta_no_calls [simp]:
  "emitted_tool_calls (process_delta d st) = emitted_tool_calls st"
proof -
  have e: "emitted_tool_calls (emit (OnReasoning r) s) = emitted_tool_calls s" for r s
    by (simp add: emit_def emitted_tool_calls_def)
  have u: "emitted_tool_calls (s\<lparr>toolCallsMap := m\<rparr>) = emitted_tool_calls s" for s m
    by (simp add: emitted_tool_calls_def)
  show ?thesis
    by (simp add: process_delta_def Let_def split_def e u split: option.splits)
qed

lemma fold_process_delta_map:
  "\<forall>d\<in>set ds. \<not> drops_fragments d \<Longrightarrow>
   toolCallsMap (fold process_delta ds st) =
     fold tool_call_step (all_fragments ds) (toolCallsMap st)"
proof (induction ds arbitrary: st)
  case Nil
  then show ?case by (simp add: all_fragments_def)
next
  case (Cons d ds)
  then show ?case by (simp add: process_delta_map all_fragments_def)
qed

lemma fold_process_delta_no_calls [simp]:
  "emitted_tool_calls (fold process_delta ds st) = emitted_tool_calls st"
  by (induction ds arbitrary: st) simp_all

lemma emitted_tool_calls_finish:
  "emitted_tool_calls (finish st) =
     emitted_tool_calls st @ map (\<lambda>(_, tc). assemble tc) (toolCallsMap st)"
proof -
  have "concat (map toolcall_part (map OnToolCall (map f m))) = map f m"
    for f :: "nat \<times> tool_call_acc \<Rightarrow> tool_call" and m
    by (induction m) simp_all
  then show ?thesis by (simp add: finish_def emitted_tool_calls_def Let_def del: map_map)
qed

text \<open>
  Claim C4 (as amended). Over the chunks of one model call, none of which carries
  tool-call fragments together with a content that takes the closing-tag branch of the
  content handling, the decoder emits on channel close exactly
  one ToolCall per index that occurred, in the order in which the indices first occurred
  in the stream; each carries the last non-empty id and the last non-empty name seen
  for its index (the empty string if there was none), the fixed type \<open>function\<close>, and
  the concatenation, in arrival order, of the argument texts of its index.
\<close>

theorem tool_calls_assembled:
  assumes "\<forall>d\<in>set ds. \<not> drops_fragments d"
  shows "emitted_tool_calls (decode ds) = expected_calls (all_fragments ds) \<and>
    last (emitted (decode ds)) =
      OnDone (if fullContent (decode ds) = [] then None else Some (fullContent (decode ds)))
             (if expected_calls (all_fragments ds) = [] then None
              else Some (expected_calls (all_fragments ds))) \<and>
    map call_type (expected_calls (all_fragments ds)) =
      map (\<lambda>_. ''function'') (first_occurrences (map tc_index (all_fragments ds))) \<and>
    distinct (first_occurrences (map tc_index (all_fragments ds))) \<and>
    set (first_occurrences (map tc_index (all_fragments ds))) = tc_index ` set (all_fragments ds)"
proof -
  let ?st = "fold process_delta ds init_state"
  have m: "toolCallsMap ?st = fold tool_call_step (all_fragments ds) []"
    using fold_process_delta_map [OF assms, of init_state] by (simp add: init_state_def)
  have calls: "map (\<lambda>(_, tc). assemble tc) (toolCallsMap ?st) = expected_calls (all_fragments ds)"
    by (simp add: m assembled_calls)
  have "emitted_tool_calls init_state = []"
    by (simp add: emitted_tool_calls_def init_state_def)
  then have 1: "emitted_tool_calls (decode ds) = expected_calls (all_fragments ds)"
    by (simp add: decode_def emitted_tool_calls_finish calls)
  have 2: "last (emitted (decode ds)) =
      OnDone (if fullContent (decode ds) = [] then None else Some (fullContent (decode ds)))
             (if expected_calls (all_fragments ds) = [] then None
              else Some (expected_calls (all_fragments ds)))"
    using calls by (simp add: decode_def finish_def Let_def)
  have 3: "map call_type (expected_calls (all_fragments ds)) =
      map (\<lambda>_. ''function'') (first_occurrences (map tc_index (all_fragments ds)))"
    by (simp add: expected_calls_def expected_call_def comp_def)
  from 1 2 3 show ?thesis by simp
qed

text \<open>A chunk that carries one tool-call fragment and nothing else.\<close>

definition args_delta :: "nat \<Rightarrow> string option \<Rightarrow> string option \<Rightarrow> string \<Rightarrow> stream_delta" where
  "args_delta i cid nm args =
     \<lparr>d_reasoning = None, d_content = None,
      d_tool_calls = Some [\<lparr>tc_index = i, tc_id = cid, tc_type = None,
                            tc_function = Some \<lparr>fn_name = nm, fn_arguments = Some args\<rparr>\<rparr>]\<rparr>"

lemmas eval_defs = expected_calls_def expected_call_def fragments_at_def all_fragments_def
  last_truthy_def fn_name_of_def fn_arguments_of_def closes_think_def drops_fragments_def
  args_delta_def content_delta_def

text \<open>The specification's example, after a think block whose closing chunk carries no
  tool call: the arguments \<^verbatim>\<open>{"q":\<close> then \<^verbatim>\<open>"x"}\<close> for index 0 assemble to
  \<^verbatim>\<open>{"q":"x"}\<close>.\<close>

theorem tool_calls_assembled_witness:
  \<open>emitted_tool_calls
     (decode [content_delta ''<think>plan'', content_delta ''</think>'',
              args_delta 0 (Some ''call_1'') (Some ''search'') ''{"q":'',
              args_delta 0 None None ''"x"}'']) =
   [\<lparr>call_id = ''call_1'', call_type = ''function'', call_name = ''search'',
     call_arguments = ''{"q":"x"}''\<rparr>]\<close>
  using tool_calls_assembled
    [of \<open>[content_delta ''<think>plan'', content_delta ''</think>'',
          args_delta 0 (Some ''call_1'') (Some ''search'') ''{"q":'',
          args_delta 0 None None ''"x"}'']\<close>]
  by (simp add: eval_defs)

text \<open>
  The chunks that the theorem leaves out: a chunk whose content takes the closing-tag
  branch is left by \<^verbatim>\<open>continue\<close> before its tool calls are read, so a fragment that
  arrives in such a chunk is lost.
\<close>

lemma closing_tag_chunk_drops_tool_calls:
  "emitted_tool_calls
     (decode [args_delta 0 (Some ''call_1'') (Some ''search'') ''{}''
                \<lparr>d_content := Some ''</think>''\<rparr>]) = []"
  by (simp add: decode_def process_delta_def handle_content_def finish_def init_state_def
      args_delta_def emitted_tool_calls_def open_tag_def close_tag_def startsWith_def
      str_split.simps emit_def Let_def)

text \<open>
  Claim C4 as stated fails twice: a later non-empty id or name replaces the earlier one,
  and the ToolCalls come in the order in which their indices first arrived, not in
  index order.
\<close>

theorem tool_calls_first_id_counterexample:
  "emitted_tool_calls
     (decode [args_delta 0 (Some ''a'') (Some ''f'') ''1'',
              args_delta 0 (Some ''b'') (Some ''g'') ''2'']) =
   [\<lparr>call_id = ''b'', call_type = ''function'', call_name = ''g'', call_arguments = ''12''\<rparr>]
   \<and>
   map call_id (emitted_tool_calls
     (decode [args_delta 1 (Some ''a'') (Some ''f'') ''1'',
              args_delta 0 (Some ''b'') (Some ''g'') ''2''])) = [''a'', ''b'']"
  by (simp add: decode_def process_delta_def tool_call_step_def finish_def init_state_def
      args_delta_def fn_name_of_def fn_arguments_of_def emitted_tool_calls_def assemble_def
      Let_def)

section \<open>Intent classifier (classifyIntent)\<close>

datatype TaskType = SIMPLE_QA | TOOL_TASK | RESEARCH_TASK | COMPLEX_REASONING | LONG_RUNNING

definition TOOL_KEYWORDS :: "string list" where
  "TOOL_KEYWORDS =
     [''send'', ''schedule'', ''post'', ''create task'', ''remind'', ''telegram'', ''discord'',
      ''slack'', ''webhook'', ''http request'', ''api call'', ''set a reminder'',
      ''cancel task'', ''pause task'', ''resume task'', ''remember'', ''save to memory'']"

definition RESEARCH_KEYWORDS :: "string list" where
  "RESEARCH_KEYWORDS =
     [''search'', ''find'', ''latest'', ''news'', ''price'', ''look up'', ''browse'',
      ''open the page'', ''go to'', ''visit'', ''what is the current'', ''who won'',
      ''trending'']"

definition LONG_RUNNING_KEYWORDS :: "string list" where
  "LONG_RUNNING_KEYWORDS =
     [''monitor'', ''every day'', ''every hour'', ''every minute'', ''recurring'',
      ''keep checking'', ''daily'', ''weekly'', ''cron'']"

text \<open>
  \<^verbatim>\<open>toLowerCase\<close> on the code units below 256: the upper-case letters are A to Z
  (65 to 90) and U+00C0 to U+00DE without the multiplication sign U+00D7, and each has
  its lower-case letter 32 places further; every other code unit is left as it is.
\<close>

definition lower_char :: "char \<Rightarrow> char" where
  "lower_char c =
     (if ((65::nat) \<le> of_char c \<and> of_char c \<le> (90::nat)) \<or>
         ((192::nat) \<le> of_char c \<and> of_char c \<le> (222::nat) \<and> of_char c \<noteq> (215::nat))
      then char_of (of_char c + (32::nat)) else c)"

definition toLowerCase :: "string \<Rightarrow> string" where
  "toLowerCase s = map lower_char s"

text \<open>
  The white space and line terminators of the language, which \<^verbatim>\<open>trim\<close> strips and
  \<^verbatim>\<open>\s\<close> matches: among the code units below 256 these are tab, line feed, vertical
  tab, form feed, carriage return, space and the no-break space U+00A0.
\<close>

definition is_space :: "char \<Rightarrow> bool" where
  "is_space c = (of_char c \<in> {9, 10, 11, 12, 13, 32, 160 :: nat})"

definition trim :: "string \<Rightarrow> string" where
  "trim s = rev (dropWhile is_space (rev (dropWhile is_space s)))"

definition isQuestion :: "string \<Rightarrow> bool" where
  "isQuestion lower =
     (endsWith lower ''?'' \<or> startsWith lower ''what'' \<or> startsWith lower ''who'' \<or>
      startsWith lower ''how'' \<or> startsWith lower ''why'' \<or> startsWith lower ''when'' \<or>
      startsWith lower ''where'' \<or> startsWith lower ''is '' \<or> startsWith lower ''are '' \<or>
      startsWith lower ''can '' \<or> startsWith lower ''does '' \<or> startsWith lower ''do '')"

text \<open>The three keyword loops return at the first keyword found; \<open>list_ex\<close> is that
  search. The length test is on the message as given, not on the trimmed text.\<close>

definition classifyIntent :: "string \<Rightarrow> TaskType" where
  "classifyIntent message =
     (let lower = trim (toLowerCase message)
      in if list_ex (\<lambda>keyword. str_includes lower keyword) LONG_RUNNING_KEYWORDS
           then LONG_RUNNING
         else if list_ex (\<lambda>keyword. str_includes lower keyword) TOOL_KEYWORDS
           then TOOL_TASK
         else if list_ex (\<lambda>keyword. str_includes lower keyword) RESEARCH_KEYWORDS
           then RESEARCH_TASK
         else if length message < 120 \<and> isQuestion lower
           then SIMPLE_QA
         else COMPLEX_REASONING)"

lemma str_includes_rev: "str_includes (rev s) (rev p) = str_includes s p"
proof -
  have "str_includes s p \<Longrightarrow> str_includes (rev s) (rev p)" for s p
  proof -
    assume "str_includes s p"
    then obtain b a where "s = b @ p @ a" by (auto simp: str_includes_decomp)
    then have "rev s = rev a @ rev p @ rev b" by simp
    then show ?thesis unfolding str_includes_decomp by blast
  qed
  from this [of s p] this [of "rev s" "rev p"] show ?thesis by auto
qed

lemma str_includes_dropWhile:
  assumes "p \<noteq> []" "\<not> P (hd p)" "str_includes s p"
  shows "str_includes (dropWhile P s) p"
  using assms(3)
proof (induction s)
  case Nil
  then show ?case by simp
next
  case (Cons c cs)
  show ?case
  proof (cases "P c")
    case True
    have "\<not> startsWith (c # cs) p"
    proof
      assume "startsWith (c # cs) p"
      then have "take (length p) (c # cs) = p" by (simp add: startsWith_def)
      with assms(1) have "hd p = c" by (cases p) auto
      with True assms(2) show False by simp
    qed
    with Cons True show ?thesis by simp
  next
    case False
    with Cons.prems show ?thesis by simp
  qed
qed

lemma str_includes_trim:
  assumes "p \<noteq> []" "\<not> is_space (hd p)" "\<not> is_space (last p)" "str_includes s p"
  shows "str_includes (trim s) p"
proof -
  have "str_includes (dropWhile is_space s) p"
    using assms by (simp add: str_includes_dropWhile)
  then have "str_includes (rev (dropWhile is_space s)) (rev p)"
    by (simp add: str_includes_rev)
  moreover have "rev p \<noteq> []" "\<not> is_space (hd (rev p))"
    using assms by (simp_all add: hd_rev)
  ultimately have "str_includes (dropWhile is_space (rev (dropWhile is_space s))) (rev p)"
    by (simp add: str_includes_dropWhile)
  then show ?thesis
    unfolding trim_def using str_includes_rev [of "dropWhile is_space (rev (dropWhile is_space s))" "rev p"]
    by simp
qed

lemma long_running_keywords_trimmed:
  "\<forall>kw\<in>set LONG_RUNNING_KEYWORDS. kw \<noteq> [] \<and> \<not> is_space (hd kw) \<and> \<not> is_space (last kw)"
  by (simp add: LONG_RUNNING_KEYWORDS_def is_space_def)

text \<open>
  Claim C6. Whenever the lower-cased message contains one of the long-running keywords,
  the classifier answers \<open>LONG_RUNNING\<close>, whatever else the message contains: the
  first check wins over the tool, research and question checks. (Trimming cannot remove
  a keyword: none begins or ends with white space.)
\<close>

theorem long_running_precedence:
  assumes "list_ex (\<lambda>keyword. str_includes (toLowerCase message) keyword) LONG_RUNNING_KEYWORDS"
  shows "classifyIntent message = LONG_RUNNING"
proof -
  from assms obtain kw where kw: "kw \<in> set LONG_RUNNING_KEYWORDS"
    and inc: "str_includes (toLowerCase message) kw"
    by (auto simp: list_ex_iff)
  from kw long_running_keywords_trimmed
  have "kw \<noteq> []" "\<not> is_space (hd kw)" "\<not> is_space (last kw)" by auto
  with inc have "str_includes (trim (toLowerCase message)) kw"
    by (simp add: str_includes_trim)
  with kw have "list_ex (\<lambda>keyword. str_includes (trim (toLowerCase message)) keyword)
      LONG_RUNNING_KEYWORDS"
    by (auto simp: list_ex_iff)
  then show ?thesis by (simp add: classifyIntent_def)
qed

text \<open>A message that also holds a tool keyword, a research keyword and a question mark.\<close>

theorem long_running_precedence_witness:
  "list_ex (\<lambda>keyword. str_includes (toLowerCase ''Every DAY, search the news and send it?'') keyword) TOOL_KEYWORDS \<and>
   list_ex (\<lambda>keyword. str_includes (toLowerCase ''Every DAY, search the news and send it?'') keyword) RESEARCH_KEYWORDS \<and>
   classifyIntent ''Every DAY, search the news and send it?'' = LONG_RUNNING"
proof -
  have h: "list_ex (\<lambda>keyword. str_includes
      (toLowerCase ''Every DAY, search the news and send it?'') keyword) LONG_RUNNING_KEYWORDS"
    by code_simp
  have t: "list_ex (\<lambda>keyword. str_includes
      (toLowerCase ''Every DAY, search the news and send it?'') keyword) TOOL_KEYWORDS"
    by code_simp
  have r: "list_ex (\<lambda>keyword. str_includes
      (toLowerCase ''Every DAY, search the news and send it?'') keyword) RESEARCH_KEYWORDS"
    by code_simp
  from long_running_precedence [OF h] t r show ?thesis by simp
qed

section \<open>Capability registry (executeTool)\<close>

text \<open>Values produced by \<^verbatim>\<open>JSON.parse\<close>.\<close>

datatype json =
    JNull
  | JBool bool
  | JNum real
  | JStr string
  | JArr "json list"
  | JObj "(string \<times> json) list"

record ToolExecutionResult =
  success :: bool
  result :: string

text \<open>
  An executor either resolves to a result or throws; a thrown value is represented by
  its message (\<^verbatim>\<open>error.message\<close> or \<^verbatim>\<open>String(error)\<close>), on the left of the
  sum. The registry is the map from names to executors that the module builds when it
  is loaded. \<^verbatim>\<open>JSON.parse\<close> is the platform's parser, a parameter: it returns a value
  or throws a syntax error.
\<close>

type_synonym ToolExecutor = "json \<Rightarrow> string + ToolExecutionResult"

definition executeTool ::
    "(string \<rightharpoonup> ToolExecutor) \<Rightarrow> (string \<Rightarrow> string + json) \<Rightarrow> string \<Rightarrow> string \<Rightarrow>
     string + ToolExecutionResult" where
  "executeTool toolRegistry JSON_parse name argsJson =
     (case toolRegistry name of
        None \<Rightarrow> Inr \<lparr>success = False, result = ''Unknown tool: '' @ name\<rparr>
      | Some executor \<Rightarrow>
          (case JSON_parse (if argsJson = [] then ''{}'' else argsJson) of
             Inl _ \<Rightarrow>
               Inr \<lparr>success = False, result = ''Invalid tool arguments JSON: '' @ argsJson\<rparr>
           | Inr args \<Rightarrow>
               (case executor args of
                  Inl message \<Rightarrow>
                    Inr \<lparr>success = False, result = ''Tool execution error: '' @ message\<rparr>
                | Inr r \<Rightarrow> Inr r)))"

text \<open>
  Claim C5 (as amended). Every dispatch returns a result record and never throws: an
  unregistered name, a non-empty argument text that does not parse, and an executor that
  throws each give a result whose success flag is false. The empty argument text is not
  parsed: \<^verbatim>\<open>{}\<close> is parsed in its place. With the value that was parsed the executor
  is called, and what it returns is the result of the dispatch.
\<close>

theorem executeTool_never_throws:
  "(\<exists>r. executeTool toolRegistry JSON_parse name argsJson = Inr r) \<and>
   (toolRegistry name = None \<longrightarrow>
      executeTool toolRegistry JSON_parse name argsJson =
        Inr \<lparr>success = False, result = ''Unknown tool: '' @ name\<rparr>) \<and>
   (toolRegistry name \<noteq> None \<and> argsJson \<noteq> [] \<and> isl (JSON_parse argsJson) \<longrightarrow>
      executeTool toolRegistry JSON_parse name argsJson =
        Inr \<lparr>success = False, result = ''Invalid tool arguments JSON: '' @ argsJson\<rparr>) \<and>
   (\<forall>executor args.
      toolRegistry name = Some executor \<and>
      JSON_parse (if argsJson = [] then ''{}'' else argsJson) = Inr args \<longrightarrow>
      executeTool toolRegistry JSON_parse name argsJson =
        (case executor args of
           Inl message \<Rightarrow>
             Inr \<lparr>success = False, result = ''Tool execution error: '' @ message\<rparr>
         | Inr r \<Rightarrow> Inr r)) \<and>
   (\<forall>executor args message.
      toolRegistry name = Some executor \<and>
      JSON_parse (if argsJson = [] then ''{}'' else argsJson) = Inr args \<and>
      executor args = Inl message \<longrightarrow>
      executeTool toolRegistry JSON_parse name argsJson =
        Inr \<lparr>success = False, result = ''Tool execution error: '' @ message\<rparr>)"
  by (auto simp: executeTool_def split: option.splits sum.splits)

text \<open>A registry with a capability that throws on anything but a string and one that
  ignores its arguments, and a parser that knows two texts; the empty text is no JSON
  text.\<close>

definition sample_registry :: "string \<rightharpoonup> ToolExecutor" where
  "sample_registry =
     [''echo'' \<mapsto> (\<lambda>args. case args of
                          JStr s \<Rightarrow> Inr \<lparr>success = True, result = s\<rparr>
                        | _ \<Rightarrow> Inl ''not a string''),
      ''list_tasks'' \<mapsto> (\<lambda>args. Inr \<lparr>success = True, result = ''No scheduled tasks.''\<rparr>)]"

definition sample_parse :: "string \<Rightarrow> string + json" where
  "sample_parse s =
     (if s = ''{}'' then Inr (JObj [])
      else if s = ''null'' then Inr JNull
      else Inl ''SyntaxError'')"

theorem executeTool_never_throws_witness:
  "executeTool sample_registry sample_parse ''missing'' ''{}'' =
     Inr \<lparr>success = False, result = ''Unknown tool: missing''\<rparr> \<and>
   executeTool sample_registry sample_parse ''echo'' ''{bad'' =
     Inr \<lparr>success = False, result = ''Invalid tool arguments JSON: {bad''\<rparr> \<and>
   executeTool sample_registry sample_parse ''echo'' [] =
     Inr \<lparr>success = False, result = ''Tool execution error: not a string''\<rparr>"
  using executeTool_never_throws [of sample_registry sample_parse "''missing''" "''{}''"]
    executeTool_never_throws [of sample_registry sample_parse "''echo''" "''{bad''"]
    executeTool_never_throws [of sample_registry sample_parse "''echo''" "[]"]
  by (simp add: sample_registry_def sample_parse_def)

text \<open>
  Claim C5 as stated fails at the empty argument text: it does not parse as structured
  data, yet the dispatch parses \<^verbatim>\<open>{}\<close> instead and returns the executor's successful
  result.
\<close>

theorem executeTool_empty_arguments_counterexample:
  "isl (sample_parse []) \<and>
   executeTool sample_registry sample_parse ''list_tasks'' [] =
     Inr \<lparr>success = True, result = ''No scheduled tasks.''\<rparr>"
  by (simp add: executeTool_def sample_registry_def sample_parse_def)

section \<open>Task store and scheduler\<close>

text \<open>
  A row of \<^verbatim>\<open>scheduled_tasks\<close>. The schedule kind and the status are the stored
  texts (\<^verbatim>\<open>once\<close>, \<^verbatim>\<open>interval\<close>, \<^verbatim>\<open>cron\<close>; \<^verbatim>\<open>active\<close>, \<^verbatim>\<open>paused\<close>,
  \<^verbatim>\<open>completed\<close>, \<^verbatim>\<open>error\<close>); a null column is \<open>None\<close>; the integer column
  \<^verbatim>\<open>notify\<close> is kept as the boolean it is read as.
\<close>

record ScheduledTask =
  task_id :: nat
  conversation_id :: "string option"
  prompt :: string
  schedule_type :: string
  schedule_value :: string
  status :: string
  notify :: bool
  next_run :: "string option"
  last_run :: "string option"
  last_result :: "string option"
  created_at :: string

record TaskRunLog =
  log_task_id :: nat
  run_at :: string
  duration_ms :: int
  log_status :: string
  log_result :: string
  log_error :: "string option"

record database =
  scheduled_tasks :: "ScheduledTask list"
  task_run_logs :: "TaskRunLog list"

subsection \<open>getDueTasks\<close>

text \<open>
  The WHERE clause of the query. \<open>datetime\<close> is the SQL function of that name, a
  parameter: it yields the normalised text of a time value, or null for a text that is
  no time value; \<open>now\<close> is \<^verbatim>\<open>datetime('now')\<close>. A comparison with null is not
  true, and texts compare code unit by code unit.
\<close>

definition is_due :: "(string \<Rightarrow> string option) \<Rightarrow> string \<Rightarrow> ScheduledTask \<Rightarrow> bool" where
  "is_due datetime now row =
     (status row = ''active'' \<and>
      (case next_run row of
         None \<Rightarrow> False
       | Some t \<Rightarrow> (case datetime t of None \<Rightarrow> False | Some d \<Rightarrow> d \<le> now)))"

definition getDueTasks ::
    "(string \<Rightarrow> string option) \<Rightarrow> string \<Rightarrow> database \<Rightarrow> ScheduledTask list" where
  "getDueTasks datetime now db = filter (is_due datetime now) (scheduled_tasks db)"

text \<open>
  Claim C9. The due-task query returns exactly the rows whose status is \<open>active\<close> and
  whose next-eligible-time is not null and, normalised, at or before now; a row whose
  status is \<open>paused\<close>, \<open>completed\<close> or \<open>error\<close> is never returned, whatever its
  next-eligible-time.
\<close>

theorem getDueTasks_only_active_due:
  "(\<forall>t \<in> set (getDueTasks datetime now db).
      t \<in> set (scheduled_tasks db) \<and> status t = ''active'' \<and>
      (\<exists>ts d. next_run t = Some ts \<and> datetime ts = Some d \<and> d \<le> now)) \<and>
   (\<forall>t \<in> set (scheduled_tasks db).
      status t \<in> {''paused'', ''completed'', ''error''} \<longrightarrow>
      t \<notin> set (getDueTasks datetime now db))"
  by (auto simp: getDueTasks_def is_due_def split: option.splits)

definition sample_datetime :: "string \<Rightarrow> string option" where
  "sample_datetime t =
     map_of [(''2026-01-01T00:00:00.000Z'', ''2026-01-01 00:00:00''),
             (''2026-03-01T12:30:00.000Z'', ''2026-03-01 12:30:00'')] t"

definition sample_task :: "nat \<Rightarrow> string \<Rightarrow> string \<Rightarrow> string option \<Rightarrow> ScheduledTask" where
  "sample_task i kind st nr =
     \<lparr>task_id = i, conversation_id = Some ''c1'', prompt = ''check the news'',
      schedule_type = kind, schedule_value = ''60000'', status = st, notify = True,
      next_run = nr, last_run = None, last_result = None,
      created_at = ''2025-12-31 00:00:00''\<rparr>"

definition sample_db :: database where
  "sample_db =
     \<lparr>scheduled_tasks =
        [sample_task 1 ''interval'' ''active'' (Some ''2026-01-01T00:00:00.000Z''),
         sample_task 2 ''interval'' ''paused'' (Some ''2026-01-01T00:00:00.000Z''),
         sample_task 3 ''once'' ''completed'' (Some ''2026-01-01T00:00:00.000Z''),
         sample_task 4 ''interval'' ''error'' (Some ''2026-01-01T00:00:00.000Z''),
         sample_task 5 ''interval'' ''active'' (Some ''2026-03-01T12:30:00.000Z''),
         sample_task 6 ''once'' ''active'' None],
      task_run_logs = []\<rparr>"

theorem getDueTasks_only_active_due_witness:
  "getDueTasks sample_datetime ''2026-02-01 08:00:00'' sample_db =
     [sample_task 1 ''interval'' ''active'' (Some ''2026-01-01T00:00:00.000Z'')] \<and>
   sample_task 2 ''interval'' ''paused'' (Some ''2026-01-01T00:00:00.000Z'')
     \<notin> set (getDueTasks sample_datetime ''2026-02-01 08:00:00'' sample_db)"
  using getDueTasks_only_active_due [of sample_datetime "''2026-02-01 08:00:00''" sample_db]
  by (simp add: getDueTasks_def is_due_def sample_db_def sample_task_def sample_datetime_def)

subsection \<open>updateTask, logTaskRun, getTask\<close>

text \<open>
  A \<^verbatim>\<open>Partial<ScheduledTask>\<close> as far as \<^verbatim>\<open>updateTask\<close> reads it: an absent
  (undefined) field is \<open>None\<close>; a present field holds the new column value, which may
  be null.
\<close>

record task_updates =
  u_status :: "string option"
  u_next_run :: "string option option"
  u_last_run :: "string option option"
  u_last_result :: "string option option"

definition no_updates :: task_updates where
  "no_updates = \<lparr>u_status = None, u_next_run = None, u_last_run = None, u_last_result = None\<rparr>"

definition apply_updates :: "task_updates \<Rightarrow> ScheduledTask \<Rightarrow> ScheduledTask" where
  "apply_updates u row =
     row\<lparr>status := (case u_status u of None \<Rightarrow> status row | Some s \<Rightarrow> s),
         next_run := (case u_next_run u of None \<Rightarrow> next_run row | Some v \<Rightarrow> v),
         last_run := (case u_last_run u of None \<Rightarrow> last_run row | Some v \<Rightarrow> v),
         last_result := (case u_last_result u of None \<Rightarrow> last_result row | Some v \<Rightarrow> v)\<rparr>"

definition updateTask :: "nat \<Rightarrow> task_updates \<Rightarrow> database \<Rightarrow> database" where
  "updateTask i u db =
     (if u_status u = None \<and> u_next_run u = None \<and> u_last_run u = None \<and> u_last_result u = None
      then db
      else db\<lparr>scheduled_tasks :=
                map (\<lambda>row. if task_id row = i then apply_updates u row else row)
                  (scheduled_tasks db)\<rparr>)"

definition getTask :: "nat \<Rightarrow> database \<Rightarrow> ScheduledTask option" where
  "getTask i db = find (\<lambda>row. task_id row = i) (scheduled_tasks db)"

text \<open>
  The column \<^verbatim>\<open>task_run_logs.task_id\<close> references \<^verbatim>\<open>scheduled_tasks(id)\<close> and
  the connection enforces foreign keys: the insert throws (\<open>Inl\<close>) when the store holds
  no task with that id.
\<close>

definition logTaskRun :: "TaskRunLog \<Rightarrow> database \<Rightarrow> string + database" where
  "logTaskRun entry db =
     (case getTask (log_task_id entry) db of
        None \<Rightarrow> Inl ''FOREIGN KEY constraint failed''
      | Some _ \<Rightarrow> Inr (db\<lparr>task_run_logs := task_run_logs db @ [entry]\<rparr>))"

subsection \<open>processTask\<close>

text \<open>
  What \<^verbatim>\<open>processTask\<close> takes from outside the module:
  the successive readings of the clock (\<open>p_clock k\<close> is the \<open>k\<close>-th reading, in
  milliseconds), \<^verbatim>\<open>toISOString\<close> on a valid time value, \<^verbatim>\<open>parseInt(_, 10)\<close>
  (\<open>None\<close> is NaN), \<^verbatim>\<open>cron.validate\<close> (\<open>None\<close>: it throws), the fresh identifier of
  \<^verbatim>\<open>uuidv4()\<close>, and \<^verbatim>\<open>runAgentLoop\<close>, which may change the database (through the
  capabilities it dispatches) and returns the answer or throws (the message on the left).
\<close>

record platform =
  p_clock :: "nat \<Rightarrow> int"
  p_iso :: "int \<Rightarrow> string"
  p_parseInt :: "string \<Rightarrow> int option"
  p_cron_validate :: "string \<Rightarrow> bool option"
  p_uuid :: string
  p_run :: "string \<Rightarrow> string \<Rightarrow> database \<Rightarrow> database \<times> (string + string)"

record notification =
  n_conversation :: string
  n_task :: nat
  n_result :: string

text \<open>A Date holds a valid time value within 8.64e15 ms of the epoch; \<^verbatim>\<open>toISOString\<close>
  throws a RangeError on any other.\<close>

definition valid_time :: "int \<Rightarrow> bool" where
  "valid_time t = (- 8640000000000000 \<le> t \<and> t \<le> 8640000000000000)"

definition computeNextCronRun :: "platform \<Rightarrow> int \<Rightarrow> string \<Rightarrow> string option" where
  "computeNextCronRun p now cronExpression =
     (case p_cron_validate p cronExpression of
        None \<Rightarrow> None
      | Some ok \<Rightarrow>
          if \<not> ok then None
          else if valid_time (now + 60000) then Some (p_iso p (now + 60000))
          else None)"

text \<open>The three-way branch on the schedule kind; \<open>Inl\<close> is the RangeError of
  \<^verbatim>\<open>toISOString\<close> on an invalid date.\<close>

definition schedule_updates :: "platform \<Rightarrow> ScheduledTask \<Rightarrow> task_updates \<Rightarrow> string + task_updates" where
  "schedule_updates p task updates =
     (if schedule_type task = ''once''
        then Inr (updates\<lparr>u_status := Some ''completed'', u_next_run := Some None\<rparr>)
      else if schedule_type task = ''interval''
        then (case p_parseInt p (schedule_value task) of
                None \<Rightarrow> Inl ''RangeError: Invalid time value''
              | Some ms \<Rightarrow>
                  if valid_time (p_clock p 4 + ms)
                  then Inr (updates\<lparr>u_next_run := Some (Some (p_iso p (p_clock p 4 + ms)))\<rparr>)
                  else Inl ''RangeError: Invalid time value'')
      else if schedule_type task = ''cron''
        then Inr (updates\<lparr>u_next_run :=
                    Some (computeNextCronRun p (p_clock p 4) (schedule_value task))\<rparr>)
      else Inr updates)"

definition conversation_of :: "platform \<Rightarrow> ScheduledTask \<Rightarrow> string" where
  "conversation_of p task =
     (if truthy (conversation_id task) then or_empty (conversation_id task) else p_uuid p)"

text \<open>
  The state is the database and the notifications sent so far; the second component of
  the result is the exception that leaves \<^verbatim>\<open>processTask\<close>, if any.
\<close>

definition processTask ::
    "platform \<Rightarrow> ScheduledTask option \<Rightarrow> database \<times> notification list \<Rightarrow>
     (database \<times> notification list) \<times> string option" where
  "processTask p task0 w =
     (case task0 of
        None \<Rightarrow> (w, None)
      | Some task \<Rightarrow>
          (let startTime = p_clock p 0;
               (db1, outcome) = p_run p (conversation_of p task) (prompt task) (fst w);
               run_status = (case outcome of Inl _ \<Rightarrow> ''error'' | Inr _ \<Rightarrow> ''success'');
               error = (case outcome of Inl e \<Rightarrow> Some e | Inr _ \<Rightarrow> None);
               res = (case outcome of Inl e \<Rightarrow> ''Error: '' @ e | Inr r \<Rightarrow> r);
               durationMs = p_clock p 1 - startTime
           in case logTaskRun
                     \<lparr>log_task_id = task_id task, run_at = p_iso p (p_clock p 2),
                      duration_ms = durationMs, log_status = run_status,
                      log_result = take 5000 res, log_error = error\<rparr> db1 of
                Inl e \<Rightarrow> ((db1, snd w), Some e)
              | Inr db2 \<Rightarrow>
                  (let updates = no_updates\<lparr>u_last_run := Some (Some (p_iso p (p_clock p 3))),
                                           u_last_result := Some (Some (take 2000 res))\<rparr>
                   in case schedule_updates p task updates of
                        Inl e \<Rightarrow> ((db2, snd w), Some e)
                      | Inr updates1 \<Rightarrow>
                          (let updates2 =
                                 (if run_status = ''error''
                                  then updates1\<lparr>u_status := Some ''error''\<rparr> else updates1);
                               db3 = updateTask (task_id task) updates2 db2;
                               ns = (if notify task \<and> truthy (conversation_id task)
                                     then snd w @
                                       [\<lparr>n_conversation = or_empty (conversation_id task),
                                         n_task = task_id task,
                                         n_result = take 1000 res\<rparr>]
                                     else snd w)
                           in ((db3, ns), None)))))"

lemma getTask_updateTask:
  assumes "u_last_run u \<noteq> None"
  shows "getTask i (updateTask i u db) = map_option (apply_updates u) (getTask i db)"
proof -
  have "find (\<lambda>row. task_id row = i)
          (map (\<lambda>row. if task_id row = i then apply_updates u row else row) rows) =
        map_option (apply_updates u) (find (\<lambda>row. task_id row = i) rows)" for rows
    by (induction rows) (auto simp: apply_updates_def)
  with assms show ?thesis by (auto simp: getTask_def updateTask_def)
qed

lemma logTaskRun_present:
  "getTask (log_task_id entry) db = Some row \<Longrightarrow>
   logTaskRun entry db = Inr (db\<lparr>task_run_logs := task_run_logs db @ [entry]\<rparr>)"
  by (simp add: logTaskRun_def)

lemma getTask_logged [simp]:
  "getTask i (db\<lparr>task_run_logs := logs\<rparr>) = getTask i db"
  by (simp add: getTask_def)

text \<open>
  Claim C3 (as amended). For a task of kind \<open>once\<close> whose row is still in the store
  when its run ends, one execution by \<^verbatim>\<open>processTask\<close> returns normally and leaves
  the row with a null next-eligible-time; its status is \<open>completed\<close> when the run
  succeeded and \<open>error\<close> when the run threw.
\<close>

theorem once_task_after_run:
  assumes "schedule_type task = ''once''"
    and "getTask (task_id task)
           (fst (p_run p (conversation_of p task) (prompt task) db)) \<noteq> None"
  shows "snd (processTask p (Some task) (db, ns)) = None \<and>
    map_option (\<lambda>row. (next_run row, status row))
      (getTask (task_id task) (fst (fst (processTask p (Some task) (db, ns))))) =
    Some (None,
          if isl (snd (p_run p (conversation_of p task) (prompt task) db))
          then ''error'' else ''completed'')"
proof -
  obtain db1 outcome where run: "p_run p (conversation_of p task) (prompt task) db = (db1, outcome)"
    by (cases "p_run p (conversation_of p task) (prompt task) db")
  from assms(2) run obtain row where row: "getTask (task_id task) db1 = Some row"
    by auto
  show ?thesis
  proof (cases outcome)
    case (Inl e)
    with assms(1) run row show ?thesis
      by (simp add: processTask_def schedule_updates_def Let_def getTask_updateTask
          logTaskRun_present no_updates_def apply_updates_def)
  next
    case (Inr r)
    with assms(1) run row show ?thesis
      by (simp add: processTask_def schedule_updates_def Let_def getTask_updateTask
          logTaskRun_present no_updates_def apply_updates_def)
  qed
qed

text \<open>A platform whose agent run leaves the database alone and ends with the given
  outcome; every clock reading falls in the first millisecond of 2026.\<close>

definition sample_platform :: "(string + string) \<Rightarrow> platform" where
  "sample_platform outcome =
     \<lparr>p_clock = (\<lambda>k. 1767225600000),
      p_iso = (\<lambda>t. ''2026-01-01T00:00:00.000Z''),
      p_parseInt = (\<lambda>s. if s = ''60000'' then Some 60000 else None),
      p_cron_validate = (\<lambda>s. Some False),
      p_uuid = ''00000000-0000-4000-8000-000000000000'',
      p_run = (\<lambda>convId prompt db. (db, outcome))\<rparr>"

text \<open>A store with one task of kind \<open>once\<close> that is due.\<close>

definition once_task :: ScheduledTask where
  "once_task = sample_task 7 ''once'' ''active'' (Some ''2026-01-01T00:00:00.000Z'')"

definition once_db :: database where
  "once_db = \<lparr>scheduled_tasks = [once_task], task_run_logs = []\<rparr>"

lemmas sample_defs = sample_platform_def once_db_def once_task_def sample_task_def
  conversation_of_def

theorem once_task_after_run_witness:
  "map_option (\<lambda>row. (next_run row, status row)) (getTask 7 once_db) =
     Some (Some ''2026-01-01T00:00:00.000Z'', ''active'') \<and>
   map_option (\<lambda>row. (next_run row, status row))
     (getTask 7 (fst (fst (processTask (sample_platform (Inr ''done''))
        (Some once_task) (once_db, []))))) =
   Some (None, ''completed'')"
  using once_task_after_run [of once_task "sample_platform (Inr ''done'')" once_db "[]"]
  by (simp add: sample_defs getTask_def)

text \<open>
  Claim C3 as stated fails for a run that throws: the error status is written after the
  kind-specific update and replaces \<open>completed\<close>.
\<close>

theorem once_task_errored_counterexample:
  "map_option (\<lambda>row. (next_run row, status row))
     (getTask 7 (fst (fst (processTask (sample_platform (Inl ''network down''))
        (Some once_task) (once_db, []))))) =
   Some (None, ''error'')"
  by (simp add: sample_defs getTask_def processTask_def schedule_updates_def Let_def
      updateTask_def logTaskRun_def no_updates_def apply_updates_def)

section \<open>Step executor (runAgentLoopStreaming)\<close>

record chat_message =
  m_role :: string
  m_content :: "string option"
  m_tool_calls :: "tool_call list option"
  m_tool_call_id :: "string option"

record stream_event =
  e_type :: string
  e_data :: string
  e_toolName :: "string option"
  e_toolArgs :: "string option"

text \<open>The conversations and messages tables: a conversation is its id and title, a
  message row its conversation id and the message, in insertion order.\<close>

record conversation_db =
  conversations :: "(string \<times> string) list"
  messages :: "(string \<times> chat_message) list"

definition MAX_TOOL_LOOPS :: nat where
  "MAX_TOOL_LOOPS = 15"

definition limit_notice :: string where
  "limit_notice = [CHR 0x0A, CHR 0x0A] @ ''[Reached maximum tool call limit. Stopping here.]''"

definition getConversation :: "string \<Rightarrow> conversation_db \<Rightarrow> (string \<times> string) option" where
  "getConversation i db = find (\<lambda>c. fst c = i) (conversations db)"

definition createConversation :: "string \<Rightarrow> string \<Rightarrow> conversation_db \<Rightarrow> conversation_db" where
  "createConversation i title db = db\<lparr>conversations := conversations db @ [(i, title)]\<rparr>"

text \<open>
  \<^verbatim>\<open>addMessage\<close> stores null for an absent ToolCall list and for an absent or empty
  reference id. The column \<^verbatim>\<open>messages.conversation_id\<close> references
  \<^verbatim>\<open>conversations(id)\<close> and the connection enforces foreign keys: the insert throws
  (\<open>Inl\<close>) when the store holds no conversation with that id.
\<close>

definition insert_message :: "string \<Rightarrow> chat_message \<Rightarrow> conversation_db \<Rightarrow> conversation_db" where
  "insert_message conversationId msg db = db\<lparr>messages := messages db @ [(conversationId, msg)]\<rparr>"

definition addMessage ::
    "string \<Rightarrow> string \<Rightarrow> string option \<Rightarrow> tool_call list option \<Rightarrow> string option \<Rightarrow>
     conversation_db \<Rightarrow> string + conversation_db" where
  "addMessage conversationId role content toolCalls toolCallId db =
     (case getConversation conversationId db of
        None \<Rightarrow> Inl ''FOREIGN KEY constraint failed''
      | Some _ \<Rightarrow>
          Inr (insert_message conversationId
                 \<lparr>m_role = role, m_content = content, m_tool_calls = toolCalls,
                  m_tool_call_id = (if truthy toolCallId then toolCallId else None)\<rparr> db))"

definition getMessages :: "string \<Rightarrow> conversation_db \<Rightarrow> chat_message list" where
  "getMessages conversationId db =
     map snd (filter (\<lambda>row. fst row = conversationId) (messages db))"

text \<open>\<^verbatim>\<open>xs.slice(-50)\<close>: the last fifty elements.\<close>

definition last50 :: "'a list \<Rightarrow> 'a list" where
  "last50 xs = drop (length xs - 50) xs"

text \<open>
  What the loop takes from outside: the model call, which from the messages sent yields
  the callbacks that \<^verbatim>\<open>callOpenRouterStream\<close> makes, and the dispatch of a
  capability, which yields a result or throws. Both may depend on and change the
  world \<open>'w\<close> outside the conversation store. The system prompt is built before the loop.
\<close>

record 'w agent_env =
  call_model :: "'w \<Rightarrow> chat_message list \<Rightarrow> 'w \<times> callback list"
  dispatch :: "'w \<Rightarrow> string \<Rightarrow> string \<Rightarrow> 'w \<times> (string + ToolExecutionResult)"
  systemPrompt :: string

text \<open>The events that the loop's callbacks pass to \<^verbatim>\<open>onEvent\<close>.\<close>

fun callback_events :: "callback \<Rightarrow> stream_event list" where
  "callback_events (OnToken token) =
     [\<lparr>e_type = ''token'', e_data = token, e_toolName = None, e_toolArgs = None\<rparr>]"
| "callback_events (OnReasoning token) =
     [\<lparr>e_type = ''reasoning'', e_data = token, e_toolName = None, e_toolArgs = None\<rparr>]"
| "callback_events (OnToolCall toolCall) =
     [\<lparr>e_type = ''tool_start'', e_data = call_name toolCall,
       e_toolName = Some (call_name toolCall), e_toolArgs = Some (call_arguments toolCall)\<rparr>]"
| "callback_events (OnDone _ _) = []"
| "callback_events (OnError _) = []"

text \<open>How the promise around the model call settles: with the first \<^verbatim>\<open>onDone\<close>
  (resolved) or \<^verbatim>\<open>onError\<close> (rejected); with neither it stays pending.\<close>

fun settle :: "callback list \<Rightarrow> (string + string option \<times> tool_call list option) option" where
  "settle [] = None"
| "settle (OnDone content toolCalls # _) = Some (Inr (content, toolCalls))"
| "settle (OnError err # _) = Some (Inl err)"
| "settle (_ # cbs) = settle cbs"

record 'w loop_state =
  world :: 'w
  store :: conversation_db
  history :: "chat_message list"
  events :: "stream_event list"

datatype 'w outcome =
    Returned string nat "'w loop_state"
  | Threw string "'w loop_state"
  | Pending "'w loop_state"

text \<open>The \<^verbatim>\<open>for\<close> loop over the ToolCalls of one assistant message.\<close>

fun run_tool_calls ::
    "'w agent_env \<Rightarrow> string \<Rightarrow> tool_call list \<Rightarrow> 'w loop_state \<Rightarrow>
     'w loop_state \<times> string option" where
  "run_tool_calls env conversationId [] st = (st, None)"
| "run_tool_calls env conversationId (toolCall # rest) st =
     (case dispatch env (world st) (call_name toolCall) (call_arguments toolCall) of
        (w, Inl err) \<Rightarrow> (st\<lparr>world := w\<rparr>, Some err)
      | (w, Inr res) \<Rightarrow>
          (let st1 = st\<lparr>world := w,
                        events := events st @
                          [\<lparr>e_type = ''tool_end'', e_data = result res,
                            e_toolName = Some (call_name toolCall), e_toolArgs = None\<rparr>]\<rparr>
           in case addMessage conversationId ''tool'' (Some (result res)) None
                     (Some (call_id toolCall)) (store st1) of
                Inl err \<Rightarrow> (st1, Some err)
              | Inr db \<Rightarrow>
                  run_tool_calls env conversationId rest
                    (st1\<lparr>store := db,
                         history := history st1 @
                           [\<lparr>m_role = ''tool'', m_content = Some (result res),
                             m_tool_calls = None,
                             m_tool_call_id = Some (call_id toolCall)\<rparr>]\<rparr>)))"

text \<open>
  The \<^verbatim>\<open>while (loopCount < MAX_TOOL_LOOPS)\<close> loop. It returns \<^verbatim>\<open>finalResponse\<close> and
  \<^verbatim>\<open>loopCount\<close> as they are when the loop is left; \<open>loopCount\<close> is incremented once
  before each model call.
\<close>

function agent_loop ::
    "'w agent_env \<Rightarrow> string \<Rightarrow> nat \<Rightarrow> 'w loop_state \<Rightarrow> 'w outcome" where
  "agent_loop env conversationId loopCount st =
     (if loopCount < MAX_TOOL_LOOPS then
        (case call_model env (world st) (history st) of
           (w, cbs) \<Rightarrow>
             (let st1 = st\<lparr>world := w, events := events st @ concat (map callback_events cbs)\<rparr>
              in case settle cbs of
                   None \<Rightarrow> Pending st1
                 | Some (Inl err) \<Rightarrow> Threw err st1
                 | Some (Inr (content, toolCalls)) \<Rightarrow>
                     (case addMessage conversationId ''assistant'' content toolCalls None
                             (store st1) of
                        Inl err \<Rightarrow> Threw err st1
                      | Inr db \<Rightarrow>
                          (let st2 = st1\<lparr>store := db,
                                         history := history st1 @
                                           [\<lparr>m_role = ''assistant'', m_content = content,
                                             m_tool_calls = toolCalls,
                                             m_tool_call_id = None\<rparr>]\<rparr>
                           in case toolCalls of
                                Some (tc # tcs) \<Rightarrow>
                                  (case run_tool_calls env conversationId (tc # tcs) st2 of
                                     (st3, Some err) \<Rightarrow> Threw err st3
                                   | (st3, None) \<Rightarrow>
                                       agent_loop env conversationId (Suc loopCount) st3)
                              | _ \<Rightarrow> Returned (or_empty content) (Suc loopCount) st2))))
      else Returned [] loopCount st)"
  by pat_completeness auto
termination
  by (relation "measure (\<lambda>(env, conversationId, loopCount, st). MAX_TOOL_LOOPS - loopCount)") auto

declare agent_loop.simps [simp del]

text \<open>
  \<^verbatim>\<open>runAgentLoopStreaming\<close>. \<open>stepContext\<close> tells whether the call is made in step
  mode with a non-empty step context, in which case the caller has already recorded the
  user message. \<open>ensured\<close> is the store once the conversation has been created if it
  was missing, \<open>initial_history\<close> the messages array built before the loop.
\<close>

definition token_event :: "string \<Rightarrow> stream_event" where
  "token_event msg = \<lparr>e_type = ''token'', e_data = msg, e_toolName = None, e_toolArgs = None\<rparr>"

definition done_event :: "string \<Rightarrow> stream_event" where
  "done_event msg = \<lparr>e_type = ''done'', e_data = msg, e_toolName = None, e_toolArgs = None\<rparr>"

definition ensured :: "string \<Rightarrow> string \<Rightarrow> conversation_db \<Rightarrow> conversation_db" where
  "ensured conversationId userMessage db =
     (case getConversation conversationId db of
        Some _ \<Rightarrow> db
      | None \<Rightarrow>
          createConversation conversationId
            (take 50 userMessage @ (if length userMessage > 50 then ''...'' else [])) db)"

definition initial_history :: "'w agent_env \<Rightarrow> string \<Rightarrow> conversation_db \<Rightarrow> chat_message list" where
  "initial_history env conversationId db =
     \<lparr>m_role = ''system'', m_content = Some (systemPrompt env),
      m_tool_calls = None, m_tool_call_id = None\<rparr> #
     map (\<lambda>msg. \<lparr>m_role = m_role msg, m_content = m_content msg,
                  m_tool_calls = m_tool_calls msg,
                  m_tool_call_id = (if truthy (m_tool_call_id msg)
                                    then m_tool_call_id msg else None)\<rparr>)
       (last50 (getMessages conversationId db))"

definition runAgentLoopStreaming ::
    "'w agent_env \<Rightarrow> string \<Rightarrow> string \<Rightarrow> bool \<Rightarrow> 'w \<Rightarrow> conversation_db \<Rightarrow> 'w outcome" where
  "runAgentLoopStreaming env conversationId userMessage stepContext w db =
     (case (if stepContext then Inr db
            else addMessage conversationId ''user'' (Some userMessage) None None
                   (ensured conversationId userMessage db)) of
        Inl err \<Rightarrow>
          Threw err \<lparr>world = w, store = ensured conversationId userMessage db,
                     history = [], events = []\<rparr>
      | Inr db1 \<Rightarrow>
          (case agent_loop env conversationId 0
                  \<lparr>world = w, store = db1,
                   history = initial_history env conversationId db1, events = []\<rparr> of
             Returned finalResponse loopCount st \<Rightarrow>
               (if loopCount \<ge> MAX_TOOL_LOOPS
                then Returned (finalResponse @ limit_notice) loopCount
                       (st\<lparr>events := events st @
                            [token_event limit_notice,
                             done_event (finalResponse @ limit_notice)]\<rparr>)
                else Returned finalResponse loopCount
                       (st\<lparr>events := events st @ [done_event finalResponse]\<rparr>))
           | other \<Rightarrow> other))"

text \<open>What a run that returns shows: the final answer, the number of model calls made and
  the last state of the world.\<close>

fun summary :: "'w outcome \<Rightarrow> (string \<times> nat \<times> 'w) option" where
  "summary (Returned finalResponse loopCount st) = Some (finalResponse, loopCount, world st)"
| "summary _ = None"

lemma agent_loop_bound:
  "agent_loop env conversationId n st = Returned finalResponse k st' \<Longrightarrow>
   k \<le> max n MAX_TOOL_LOOPS"
proof (induction env conversationId n st rule: agent_loop.induct)
  case (1 env conversationId loopCount st)
  show ?case
  proof (cases "loopCount < MAX_TOOL_LOOPS")
    case False
    with "1.prems" show ?thesis by (simp add: agent_loop.simps)
  next
    case True
    obtain w cbs where cm: "call_model env (world st) (history st) = (w, cbs)"
      by (cases "call_model env (world st) (history st)")
    show ?thesis
    proof (cases "settle cbs")
      case None
      with "1.prems" True cm show ?thesis by (simp add: agent_loop.simps)
    next
      case (Some r)
      show ?thesis
      proof (cases r)
        case (Inl err)
        with "1.prems" True cm Some show ?thesis by (simp add: agent_loop.simps)
      next
        case (Inr ct)
        obtain content toolCalls where ct: "ct = (content, toolCalls)" by (cases ct)
        let ?st1 = "st\<lparr>world := w, events := events st @ concat (map callback_events cbs)\<rparr>"
        show ?thesis
        proof (cases "addMessage conversationId ''assistant'' content toolCalls None (store ?st1)")
          case failed: (Inl err)
          with "1.prems" True cm Some Inr ct show ?thesis
            by (simp add: agent_loop.simps Let_def)
        next
          case added: (Inr db)
          let ?st2 = "?st1\<lparr>store := db,
                          history := history ?st1 @
                            [\<lparr>m_role = ''assistant'', m_content = content,
                              m_tool_calls = toolCalls, m_tool_call_id = None\<rparr>]\<rparr>"
          show ?thesis
          proof (cases "\<exists>tc tcs. toolCalls = Some (tc # tcs)")
            case False
            with "1.prems" True cm Some Inr ct added show ?thesis
              by (auto simp: agent_loop.simps Let_def split: option.splits list.splits)
          next
            case yes: True
            then obtain tc tcs where tcs: "toolCalls = Some (tc # tcs)" by blast
            obtain st3 thrown
              where rt: "run_tool_calls env conversationId (tc # tcs) ?st2 = (st3, thrown)"
              by (cases "run_tool_calls env conversationId (tc # tcs) ?st2")
            show ?thesis
            proof (cases thrown)
              case (Some err)
              with "1.prems" True cm \<open>settle cbs = Some r\<close> Inr ct added tcs rt show ?thesis
                by (simp add: agent_loop.simps Let_def del: run_tool_calls.simps)
            next
              case None
              with "1.prems" True cm \<open>settle cbs = Some r\<close> Inr ct added tcs rt
              have "agent_loop env conversationId (Suc loopCount) st3 =
                  Returned finalResponse k st'"
                by (simp add: agent_loop.simps Let_def del: run_tool_calls.simps)
              from "1.IH" [OF True cm [symmetric] refl \<open>settle cbs = Some r\<close> Inr
                  ct [symmetric] added refl tcs refl rt [symmetric] None this]
              show ?thesis using True by simp
            qed
          qed
        qed
      qed
    qed
  qed
qed

lemma getConversation_insert_message [simp]:
  "getConversation c (insert_message c' msg db) = getConversation c db"
  by (simp add: getConversation_def insert_message_def)

lemma find_snoc: "find P xs = None \<Longrightarrow> find P (xs @ [y]) = (if P y then Some y else None)"
  by (induction xs) (auto split: if_splits)

lemma getConversation_ensured: "getConversation c (ensured c m db) \<noteq> None"
proof (cases "getConversation c db")
  case None
  then show ?thesis
    by (simp add: ensured_def) (simp add: getConversation_def createConversation_def find_snoc)
next
  case (Some row)
  then show ?thesis by (simp add: ensured_def)
qed

lemma addMessage_present:
  "getConversation c db \<noteq> None \<Longrightarrow>
   addMessage c role content toolCalls toolCallId db =
     Inr (insert_message c
            \<lparr>m_role = role, m_content = content, m_tool_calls = toolCalls,
             m_tool_call_id = (if truthy toolCallId then toolCallId else None)\<rparr> db)"
  by (auto simp: addMessage_def)

text \<open>
  A model that requests one capability in each of its first \<open>k\<close> calls and then
  answers \<open>ok\<close>. The world is the number of model calls made so far.
\<close>

definition search_call :: tool_call where
  "search_call = \<lparr>call_id = ''call_1'', call_type = ''function'',
                   call_name = ''brave_web_search'', call_arguments = ''{}''\<rparr>"

definition answers_after :: "nat \<Rightarrow> nat agent_env" where
  "answers_after k =
     \<lparr>call_model = (\<lambda>n msgs. (Suc n,
         if n < k then [OnToolCall search_call, OnDone None (Some [search_call])]
         else [OnToken ''ok'', OnDone (Some ''ok'') None])),
      dispatch = (\<lambda>n name args. (n, Inr \<lparr>success = True, result = ''found''\<rparr>)),
      systemPrompt = ''You are NexusAgent''\<rparr>"

definition empty_db :: conversation_db where
  "empty_db = \<lparr>conversations = [], messages = []\<rparr>"

lemma runAgentLoopStreaming_summary:
  assumes "\<not> sc"
  shows "\<exists>st0. world st0 = w \<and> getConversation c (store st0) \<noteq> None \<and>
     summary (runAgentLoopStreaming env c m sc w db) =
       map_option (\<lambda>(f, n, w'). (if n \<ge> MAX_TOOL_LOOPS then f @ limit_notice else f, n, w'))
         (summary (agent_loop env c 0 st0))"
proof -
  let ?db1 = "insert_message c
      \<lparr>m_role = ''user'', m_content = Some m, m_tool_calls = None, m_tool_call_id = None\<rparr>
      (ensured c m db)"
  let ?st0 = "\<lparr>world = w, store = ?db1, history = initial_history env c ?db1, events = []\<rparr>"
  have "addMessage c ''user'' (Some m) None None (ensured c m db) = Inr ?db1"
    by (simp add: addMessage_present getConversation_ensured)
  with assms have "summary (runAgentLoopStreaming env c m sc w db) =
       map_option (\<lambda>(f, n, w'). (if n \<ge> MAX_TOOL_LOOPS then f @ limit_notice else f, n, w'))
         (summary (agent_loop env c 0 ?st0))"
    by (simp add: runAgentLoopStreaming_def split: outcome.splits)
  moreover have "world ?st0 = w" and "getConversation c (store ?st0) \<noteq> None"
    by (simp_all add: getConversation_ensured)
  ultimately show ?thesis by blast
qed

text \<open>One round of the loop for \<open>answers_after k\<close>, in a store that holds the
  conversation.\<close>

lemma answers_after_round:
  assumes "n < MAX_TOOL_LOOPS" "world st = n" "getConversation c (store st) \<noteq> None"
  shows "\<exists>st'. world st' = Suc n \<and> getConversation c (store st') \<noteq> None \<and>
    summary (agent_loop (answers_after k) c n st) =
      (if n < k then summary (agent_loop (answers_after k) c (Suc n) st')
       else Some (''ok'', Suc n, Suc n))"
proof (cases "n < k")
  case True
  let ?db1 = "insert_message c
      \<lparr>m_role = ''assistant'', m_content = None, m_tool_calls = Some [search_call],
        m_tool_call_id = None\<rparr> (store st)"
  let ?db2 = "insert_message c
      \<lparr>m_role = ''tool'', m_content = Some ''found'', m_tool_calls = None,
        m_tool_call_id = Some ''call_1''\<rparr> ?db1"
  let ?st' = "st\<lparr>world := Suc n,
      events := events st @ callback_events (OnToolCall search_call) @
        [\<lparr>e_type = ''tool_end'', e_data = ''found'',
          e_toolName = Some ''brave_web_search'', e_toolArgs = None\<rparr>],
      store := ?db2,
      history := history st @
        [\<lparr>m_role = ''assistant'', m_content = None,
          m_tool_calls = Some [search_call], m_tool_call_id = None\<rparr>,
         \<lparr>m_role = ''tool'', m_content = Some ''found'', m_tool_calls = None,
          m_tool_call_id = Some ''call_1''\<rparr>]\<rparr>"
  have c1: "getConversation c ?db1 \<noteq> None" using assms(3) by simp
  have "summary (agent_loop (answers_after k) c n st) =
      summary (agent_loop (answers_after k) c (Suc n) ?st')"
    using assms True c1
    by (subst agent_loop.simps)
      (simp add: answers_after_def search_call_def Let_def addMessage_present)
  moreover have "world ?st' = Suc n" and "getConversation c (store ?st') \<noteq> None"
    using assms(3) by simp_all
  ultimately show ?thesis using True by (intro exI [of _ ?st']) simp
next
  case False
  have "summary (agent_loop (answers_after k) c n st) = Some (''ok'', Suc n, Suc n)"
    using assms False
    by (subst agent_loop.simps) (simp add: answers_after_def Let_def addMessage_present)
  with False assms show ?thesis by (intro exI [of _ "st\<lparr>world := Suc n\<rparr>"]) simp
qed

lemma answers_after_rounds:
  assumes "world st = n" "n \<le> k" "k < MAX_TOOL_LOOPS" "getConversation c (store st) \<noteq> None"
  shows "summary (agent_loop (answers_after k) c n st) = Some (''ok'', Suc k, Suc k)"
  using assms
proof (induction "k - n" arbitrary: n st)
  case 0
  then have "n = k" by simp
  with 0 answers_after_round [of n st c k] show ?case by auto
next
  case (Suc d)
  then have lt: "n < k" by simp
  with Suc.prems have "n < MAX_TOOL_LOOPS" by simp
  from answers_after_round [OF this Suc.prems(1) Suc.prems(4), of k] lt
  obtain st' where w: "world st' = Suc n" and cv: "getConversation c (store st') \<noteq> None"
    and step: "summary (agent_loop (answers_after k) c n st) =
      summary (agent_loop (answers_after k) c (Suc n) st')"
    by auto
  have "summary (agent_loop (answers_after k) c (Suc n) st') = Some (''ok'', Suc k, Suc k)"
    using Suc.hyps(2) lt Suc.prems(3) w cv by (intro Suc.hyps(1)) simp_all
  with step show ?case by simp
qed

lemma answers_after_exhaust:
  assumes "world st = n" "n \<le> MAX_TOOL_LOOPS" "MAX_TOOL_LOOPS \<le> k"
    "getConversation c (store st) \<noteq> None"
  shows "summary (agent_loop (answers_after k) c n st) = Some ([], MAX_TOOL_LOOPS, MAX_TOOL_LOOPS)"
  using assms
proof (induction "MAX_TOOL_LOOPS - n" arbitrary: n st)
  case 0
  then have "n = MAX_TOOL_LOOPS" by simp
  with 0 show ?case by (subst agent_loop.simps) simp
next
  case (Suc d)
  then have lt: "n < MAX_TOOL_LOOPS" by simp
  with Suc.prems have "n < k" by simp
  with answers_after_round [OF lt Suc.prems(1) Suc.prems(4), of k]
  obtain st' where w: "world st' = Suc n" and cv: "getConversation c (store st') \<noteq> None"
    and step: "summary (agent_loop (answers_after k) c n st) =
      summary (agent_loop (answers_after k) c (Suc n) st')"
    by auto
  have "summary (agent_loop (answers_after k) c (Suc n) st') =
      Some ([], MAX_TOOL_LOOPS, MAX_TOOL_LOOPS)"
    using Suc.hyps(2) lt Suc.prems(3) w cv by (intro Suc.hyps(1)) simp_all
  with step show ?case by simp
qed

text \<open>In step mode the user message is not inserted and the conversation is not created:
  when the store has no row for the conversation, the first insert of the loop throws.\<close>

lemma step_mode_missing_conversation_throws:
  "\<exists>st. runAgentLoopStreaming (answers_after 0) ''c1'' ''hello'' True 0 empty_db =
     Threw ''FOREIGN KEY constraint failed'' st"
  by (simp add: runAgentLoopStreaming_def agent_loop.simps [of _ _ 0] answers_after_def
      MAX_TOOL_LOOPS_def Let_def addMessage_def getConversation_def empty_db_def)

text \<open>Whatever the model and the capabilities do, a run that returns has made at most
  \<open>MAX_TOOL_LOOPS\<close> model calls.\<close>

lemma runAgentLoopStreaming_bound:
  assumes "runAgentLoopStreaming env c m sc w db = Returned finalResponse k st"
  shows "k \<le> MAX_TOOL_LOOPS"
proof -
  from assms obtain f st0 l where "agent_loop env c 0 l = Returned f k st0"
    by (auto simp: runAgentLoopStreaming_def Let_def split: outcome.splits if_splits sum.splits)
  from agent_loop_bound [OF this] show ?thesis by simp
qed

text \<open>
  Claim C2: the code departs from it. The loop makes at most fifteen model calls, and a
  model that requests a capability in every call ends with the notice alone. But the
  notice is appended whenever the fifteenth call was made, also when that call carried
  no ToolCalls and its content is the final answer: a model that answers \<open>ok\<close> in
  its fifteenth call yields \<open>ok\<close> followed by the notice, whereas one that answers in
  its fourteenth call yields \<open>ok\<close>.
\<close>

theorem answer_on_last_round_gets_notice:
  "summary (runAgentLoopStreaming (answers_after 14) ''c1'' ''hello'' False 0 empty_db) =
     Some (''ok'' @ limit_notice, 15, 15) \<and>
   summary (runAgentLoopStreaming (answers_after 13) ''c1'' ''hello'' False 0 empty_db) =
     Some (''ok'', 14, 14) \<and>
   summary (runAgentLoopStreaming (answers_after 15) ''c1'' ''hello'' False 0 empty_db) =
     Some (limit_notice, 15, 15)"
proof -
  have run: "summary (runAgentLoopStreaming (answers_after k) ''c1'' ''hello'' False 0 empty_db) =
      (if k < MAX_TOOL_LOOPS
       then Some (if Suc k \<ge> MAX_TOOL_LOOPS then ''ok'' @ limit_notice else ''ok'', Suc k, Suc k)
       else Some (limit_notice, MAX_TOOL_LOOPS, MAX_TOOL_LOOPS))" for k
  proof -
    from runAgentLoopStreaming_summary [where sc = False and w = "0::nat" and c = "''c1''"
        and env = "answers_after k" and m = "''hello''" and db = empty_db]
    obtain st0 where w: "world st0 = 0" and cv: "getConversation ''c1'' (store st0) \<noteq> None"
      and s: "summary (runAgentLoopStreaming (answers_after k) ''c1'' ''hello'' False 0 empty_db) =
        map_option (\<lambda>(f, n, w'). (if n \<ge> MAX_TOOL_LOOPS then f @ limit_notice else f, n, w'))
          (summary (agent_loop (answers_after k) ''c1'' 0 st0))"
      by auto
    show ?thesis
    proof (cases "k < MAX_TOOL_LOOPS")
      case True
      with answers_after_rounds [OF w _ True cv] s show ?thesis by simp
    next
      case False
      with answers_after_exhaust [OF w _ _ cv, of k] s show ?thesis by simp
    qed
  qed
  show ?thesis by (simp add: run MAX_TOOL_LOOPS_def)
qed

section \<open>Multi-step plan runner (stage 3 of the chat route)\<close>


text \<open>A value caught by \<^verbatim>\<open>catch (err)\<close>: an Error object with its message, or
  anything else.\<close>

datatype thrown = ErrorObject string | OtherValue

text \<open>
  The events written to the response stream by the step loop: the events that the step
  executor passes to its \<^verbatim>\<open>onEvent\<close>, which are forwarded as they are, the
  \<^verbatim>\<open>step_start\<close> event (step id and title) and the \<^verbatim>\<open>error\<close> event.
\<close>

datatype sse_event =
    Forwarded stream_event
  | StepStart int string
  | ErrorEvent string



definition quote :: string where
  "quote = [CHR 0x22]"








fun step_starts :: "sse_event list \<Rightarrow> (int \<times> string) list" where
  "step_starts [] = []"
| "step_starts (StepStart i t # evs) = (i, t) # step_starts evs"
| "step_starts (_ # evs) = step_starts evs"

lemma step_starts_append [simp]: "step_starts (xs @ ys) = step_starts xs @ step_starts ys"
  by (induction xs rule: step_starts.induct) simp_all

lemma step_starts_forwarded [simp]: "step_starts (map Forwarded evs) = []"
  by (induction evs) simp_all








section \<open>Plan parsing (parseTimeline)\<close>

subsection \<open>The two regular expressions\<close>

text \<open>
  Both patterns are sequences of literal characters, \<^verbatim>\<open>[\s\S]*\<close> and \<^verbatim>\<open>\s*\<close>.
  \<open>rx_match\<close> matches a pattern at the start of a text as a backtracking matcher does:
  a star first tries to take one more character and gives it back only when the rest
  cannot match. It yields the length of the match. \<^verbatim>\<open>\s\<close> is \<open>is_space\<close>.
\<close>

datatype rx_item = Lit char | AnyStar | SpaceStar

fun rx_match :: "rx_item list \<Rightarrow> string \<Rightarrow> nat option" where
  "rx_match [] s = Some 0"
| "rx_match (Lit c # r) [] = None"
| "rx_match (Lit c # r) (x # xs) =
     (if x = c then map_option Suc (rx_match r xs) else None)"
| "rx_match (AnyStar # r) [] = rx_match r []"
| "rx_match (AnyStar # r) (x # xs) =
     (case rx_match (AnyStar # r) xs of
        Some n \<Rightarrow> Some (Suc n)
      | None \<Rightarrow> rx_match r (x # xs))"
| "rx_match (SpaceStar # r) [] = rx_match r []"
| "rx_match (SpaceStar # r) (x # xs) =
     (if is_space x
      then (case rx_match (SpaceStar # r) xs of
              Some n \<Rightarrow> Some (Suc n)
            | None \<Rightarrow> rx_match r (x # xs))
      else rx_match r (x # xs))"

text \<open>\<^verbatim>\<open>content.match(rx)\<close> without the global flag: the match at the leftmost position
  that has one, or null.\<close>

fun str_match :: "rx_item list \<Rightarrow> string \<Rightarrow> string option" where
  "str_match r [] = (case rx_match r [] of Some n \<Rightarrow> Some [] | None \<Rightarrow> None)"
| "str_match r (x # xs) =
     (case rx_match r (x # xs) of
        Some n \<Rightarrow> Some (take n (x # xs))
      | None \<Rightarrow> str_match r xs)"

text \<open>\<^verbatim>\<open>/\{[\s\S]*"steps"\s*:\s*\[[\s\S]*\]\s*\}/\<close> and \<^verbatim>\<open>/\[[\s\S]*\]/\<close>.\<close>

definition steps_object_rx :: "rx_item list" where
  "steps_object_rx =
     [Lit CHR ''{'', AnyStar] @ map Lit (quote @ ''steps'' @ quote) @
     [SpaceStar, Lit CHR '':'', SpaceStar, Lit CHR ''['', AnyStar, Lit CHR '']'', SpaceStar,
      Lit CHR ''}'']"

definition array_rx :: "rx_item list" where
  "array_rx = [Lit CHR ''['', AnyStar, Lit CHR '']'']"

subsection \<open>Values and their properties\<close>

text \<open>
  \<^verbatim>\<open>v.name\<close> for a value that came out of \<^verbatim>\<open>JSON.parse\<close> and a name that is no
  built-in property: a TypeError on null (\<open>Inl\<close>), the member of an object if it has
  one, and undefined (\<open>None\<close>) otherwise.
\<close>

fun js_prop :: "json \<Rightarrow> string \<Rightarrow> string + json option" where
  "js_prop JNull name = Inl ''TypeError''"
| "js_prop (JObj members) name = Inr (map_of members name)"
| "js_prop _ name = Inr None"

fun is_number :: "json option \<Rightarrow> bool" where
  "is_number (Some (JNum _)) = True"
| "is_number _ = False"

fun is_string :: "json option \<Rightarrow> bool" where
  "is_string (Some (JStr _)) = True"
| "is_string _ = False"

fun js_truthy :: "json option \<Rightarrow> bool" where
  "js_truthy None = False"
| "js_truthy (Some JNull) = False"
| "js_truthy (Some (JBool b)) = b"
| "js_truthy (Some (JNum n)) = (n \<noteq> 0)"
| "js_truthy (Some (JStr s)) = (s \<noteq> [])"
| "js_truthy (Some _) = True"

subsection \<open>parseTimeline\<close>

text \<open>The callback of \<^verbatim>\<open>parsed.steps.filter\<close>; reading \<^verbatim>\<open>s.id\<close> throws on null.\<close>

definition step_ok :: "json \<Rightarrow> string + bool" where
  "step_ok s =
     (case js_prop s ''id'' of
        Inl e \<Rightarrow> Inl e
      | Inr idv \<Rightarrow>
          if \<not> is_number idv then Inr False
          else (case js_prop s ''title'' of
                  Inl e \<Rightarrow> Inl e
                | Inr t \<Rightarrow>
                    if \<not> is_string t then Inr False
                    else (case js_prop s ''action'' of
                            Inl e \<Rightarrow> Inl e
                          | Inr a \<Rightarrow>
                              if \<not> is_string a then Inr False
                              else (case js_prop s ''description'' of
                                      Inl e \<Rightarrow> Inl e
                                    | Inr d \<Rightarrow> Inr (is_string d)))))"

fun filter_steps :: "json list \<Rightarrow> string + json list" where
  "filter_steps [] = Inr []"
| "filter_steps (s # ss) =
     (case step_ok s of
        Inl e \<Rightarrow> Inl e
      | Inr keep \<Rightarrow>
          (case filter_steps ss of
             Inl e \<Rightarrow> Inl e
           | Inr kept \<Rightarrow> Inr (if keep then s # kept else kept)))"

text \<open>
  The body of the first \<^verbatim>\<open>try\<close>: \<open>Inl\<close> is an exception raised in it,
  \<open>Inr (Some steps)\<close> its \<^verbatim>\<open>return\<close>, \<open>Inr None\<close> the end of the block without a
  return. \<open>JSON_parse\<close> is the platform's parser, a parameter.
\<close>

definition try_steps_object :: "(string \<Rightarrow> string + json) \<Rightarrow> string \<Rightarrow> string + json list option" where
  "try_steps_object JSON_parse content =
     (case str_match steps_object_rx content of
        None \<Rightarrow> Inr None
      | Some jsonMatch \<Rightarrow>
          (case JSON_parse jsonMatch of
             Inl e \<Rightarrow> Inl e
           | Inr parsed \<Rightarrow>
               (case js_prop parsed ''steps'' of
                  Inl e \<Rightarrow> Inl e
                | Inr (Some (JArr (s # ss))) \<Rightarrow>
                    (case filter_steps (s # ss) of
                       Inl e \<Rightarrow> Inl e
                     | Inr validSteps \<Rightarrow>
                         if validSteps \<noteq> [] then Inr (Some validSteps) else Inr None)
                | Inr _ \<Rightarrow> Inr None)))"

text \<open>The body of the second \<^verbatim>\<open>try\<close>.\<close>

definition try_bare_array :: "(string \<Rightarrow> string + json) \<Rightarrow> string \<Rightarrow> string + json list option" where
  "try_bare_array JSON_parse content =
     (case str_match array_rx content of
        None \<Rightarrow> Inr None
      | Some arrayMatch \<Rightarrow>
          (case JSON_parse arrayMatch of
             Inl e \<Rightarrow> Inl e
           | Inr (JArr (a0 # rest)) \<Rightarrow>
               (case js_prop a0 ''id'' of
                  Inl e \<Rightarrow> Inl e
                | Inr idv \<Rightarrow>
                    if \<not> js_truthy idv then Inr None
                    else (case js_prop a0 ''title'' of
                            Inl e \<Rightarrow> Inl e
                          | Inr t \<Rightarrow>
                              if js_truthy t then Inr (Some (a0 # rest)) else Inr None))
           | Inr _ \<Rightarrow> Inr None))"

text \<open>
  \<^verbatim>\<open>parseTimeline\<close>: each \<^verbatim>\<open>catch\<close> swallows the exception of its block. The result
  is the list of steps of the timeline or null; \<open>Inl\<close> would be an exception that
  leaves the function.
\<close>

definition parseTimeline :: "(string \<Rightarrow> string + json) \<Rightarrow> string \<Rightarrow> string + json list option" where
  "parseTimeline JSON_parse content =
     (case try_steps_object JSON_parse content of
        Inr (Some steps) \<Rightarrow> Inr (Some steps)
      | _ \<Rightarrow>
          (case try_bare_array JSON_parse content of
             Inr (Some steps) \<Rightarrow> Inr (Some steps)
           | _ \<Rightarrow> Inr None))"

text \<open>A step with its four fields of the right primitive types.\<close>

definition valid_step :: "json \<Rightarrow> bool" where
  "valid_step s =
     (case s of
        JObj members \<Rightarrow>
          is_number (map_of members ''id'') \<and> is_string (map_of members ''title'') \<and>
          is_string (map_of members ''action'') \<and> is_string (map_of members ''description'')
      | _ \<Rightarrow> False)"

lemma rx_match_length: "rx_match r s = Some n \<Longrightarrow> n \<le> length s"
  by (induction r s arbitrary: n rule: rx_match.induct)
    (auto split: if_splits option.splits)

text \<open>The match is a substring of the text, it starts where the pattern first matches,
  and no earlier position has a match.\<close>

lemma str_match_leftmost:
  "str_match r c = Some m \<Longrightarrow>
   \<exists>pre post. c = pre @ m @ post \<and> rx_match r (m @ post) = Some (length m) \<and>
     (\<forall>k<length pre. rx_match r (drop k c) = None)"
proof (induction c)
  case Nil
  then show ?case by (auto split: option.splits dest: rx_match_length)
next
  case (Cons x xs)
  show ?case
  proof (cases "rx_match r (x # xs)")
    case (Some n)
    with Cons.prems have m: "m = take n (x # xs)" by simp
    from Some have "n \<le> length (x # xs)" by (rule rx_match_length)
    with m have "length m = n" by simp
    with m Some have "x # xs = [] @ m @ drop n (x # xs) \<and>
        rx_match r (m @ drop n (x # xs)) = Some (length m)"
      by simp
    then show ?thesis by (metis length_0_conv not_less_zero list.size(3))
  next
    case None
    with Cons.prems have "str_match r xs = Some m" by simp
    from Cons.IH [OF this] obtain pre post
      where xs: "xs = pre @ m @ post" and mm: "rx_match r (m @ post) = Some (length m)"
        and early: "\<forall>k<length pre. rx_match r (drop k xs) = None"
      by blast
    have "\<forall>k<length (x # pre). rx_match r (drop k (x # xs)) = None"
    proof (intro allI impI)
      fix k assume "k < length (x # pre)"
      then show "rx_match r (drop k (x # xs)) = None"
        using None early by (cases k) auto
    qed
    with xs mm have "x # xs = (x # pre) @ m @ post \<and>
        rx_match r (m @ post) = Some (length m) \<and>
        (\<forall>k<length (x # pre). rx_match r (drop k (x # xs)) = None)"
      by simp
    then show ?thesis by blast
  qed
qed

text \<open>The test \<^verbatim>\<open>v.name\<close> used as a condition, where it does not throw.\<close>

definition truthy_prop :: "json \<Rightarrow> string \<Rightarrow> bool" where
  "truthy_prop v name = (case js_prop v name of Inl _ \<Rightarrow> False | Inr x \<Rightarrow> js_truthy x)"

text \<open>
  The plan that the specification describes for each of the two scans, written without
  exceptions. From the steps object: the match parses to an object whose \<open>steps\<close>
  member is an array without a null element, and the plan is the steps of that array
  that have the four fields, if there is one. From the bare array: the match parses to
  a non-empty array whose first element has a truthy \<open>id\<close> and a truthy \<open>title\<close>,
  and the plan is that array.
\<close>

definition plan_from_steps_object :: "(string \<Rightarrow> string + json) \<Rightarrow> string \<Rightarrow> json list option" where
  "plan_from_steps_object JSON_parse content =
     (case str_match steps_object_rx content of
        None \<Rightarrow> None
      | Some jsonMatch \<Rightarrow>
          (case JSON_parse jsonMatch of
             Inr (JObj members) \<Rightarrow>
               (case map_of members ''steps'' of
                  Some (JArr ss) \<Rightarrow>
                    if JNull \<in> set ss \<or> filter valid_step ss = [] then None
                    else Some (filter valid_step ss)
                | _ \<Rightarrow> None)
           | _ \<Rightarrow> None))"

definition plan_from_bare_array :: "(string \<Rightarrow> string + json) \<Rightarrow> string \<Rightarrow> json list option" where
  "plan_from_bare_array JSON_parse content =
     (case str_match array_rx content of
        None \<Rightarrow> None
      | Some arrayMatch \<Rightarrow>
          (case JSON_parse arrayMatch of
             Inr (JArr (a0 # rest)) \<Rightarrow>
               if truthy_prop a0 ''id'' \<and> truthy_prop a0 ''title'' then Some (a0 # rest)
               else None
           | _ \<Rightarrow> None))"

text \<open>What a \<^verbatim>\<open>try\<close> block contributes: the plan it returns, if it returns one.\<close>

fun returned :: "string + json list option \<Rightarrow> json list option" where
  "returned (Inr (Some steps)) = Some steps"
| "returned _ = None"

lemma str_match_None:
  "str_match r c = None \<longleftrightarrow> (\<forall>k\<le>length c. rx_match r (drop k c) = None)"
proof (induction c)
  case Nil
  then show ?case by (simp split: option.splits)
next
  case (Cons x xs)
  have "(\<forall>k\<le>length (x # xs). rx_match r (drop k (x # xs)) = None) \<longleftrightarrow>
      rx_match r (x # xs) = None \<and> (\<forall>k\<le>length xs. rx_match r (drop k xs) = None)"
  proof
    assume all: "\<forall>k\<le>length (x # xs). rx_match r (drop k (x # xs)) = None"
    from all [rule_format, of 0] have "rx_match r (x # xs) = None" by simp
    moreover have "\<forall>k\<le>length xs. rx_match r (drop k xs) = None"
    proof (intro allI impI)
      fix k assume "k \<le> length xs"
      with all [rule_format, of "Suc k"] show "rx_match r (drop k xs) = None" by simp
    qed
    ultimately show "rx_match r (x # xs) = None \<and> (\<forall>k\<le>length xs. rx_match r (drop k xs) = None)"
      by simp
  next
    assume h: "rx_match r (x # xs) = None \<and> (\<forall>k\<le>length xs. rx_match r (drop k xs) = None)"
    show "\<forall>k\<le>length (x # xs). rx_match r (drop k (x # xs)) = None"
    proof (intro allI impI)
      fix k assume "k \<le> length (x # xs)"
      with h show "rx_match r (drop k (x # xs)) = None" by (cases k) auto
    qed
  qed
  with Cons.IH show ?case by (simp split: option.splits)
qed

lemma step_ok_eq: "step_ok s = (if s = JNull then Inl ''TypeError'' else Inr (valid_step s))"
  by (cases s) (auto simp: step_ok_def valid_step_def)

lemma filter_steps_eq:
  "filter_steps ss = (if JNull \<in> set ss then Inl ''TypeError'' else Inr (filter valid_step ss))"
  by (induction ss) (auto simp: step_ok_eq)

lemma try_steps_object_returned:
  "returned (try_steps_object JSON_parse content) = plan_from_steps_object JSON_parse content"
proof (cases "str_match steps_object_rx content")
  case None
  then show ?thesis by (simp add: try_steps_object_def plan_from_steps_object_def)
next
  case (Some jsonMatch)
  show ?thesis
  proof (cases "JSON_parse jsonMatch")
    case (Inl e)
    with Some show ?thesis by (simp add: try_steps_object_def plan_from_steps_object_def)
  next
    case (Inr parsed)
    show ?thesis
    proof (cases parsed)
      case (JObj members)
      show ?thesis
      proof (cases "map_of members ''steps''")
        case None
        with Some Inr JObj show ?thesis
          by (simp add: try_steps_object_def plan_from_steps_object_def)
      next
        case steps: (Some v)
        show ?thesis
        proof (cases v)
          case (JArr ss)
          with Some Inr JObj steps show ?thesis
            by (cases ss)
              (simp_all add: try_steps_object_def plan_from_steps_object_def filter_steps_eq
                del: filter_steps.simps)
        qed (use Some Inr JObj steps in
            \<open>simp_all add: try_steps_object_def plan_from_steps_object_def\<close>)
      qed
    qed (use Some Inr in \<open>simp_all add: try_steps_object_def plan_from_steps_object_def\<close>)
  qed
qed

lemma try_bare_array_returned:
  "returned (try_bare_array JSON_parse content) = plan_from_bare_array JSON_parse content"
proof (cases "str_match array_rx content")
  case None
  then show ?thesis by (simp add: try_bare_array_def plan_from_bare_array_def)
next
  case (Some arrayMatch)
  show ?thesis
  proof (cases "JSON_parse arrayMatch")
    case (Inl e)
    with Some show ?thesis by (simp add: try_bare_array_def plan_from_bare_array_def)
  next
    case (Inr arr)
    show ?thesis
    proof (cases arr)
      case (JArr xs)
      show ?thesis
      proof (cases xs)
        case Nil
        with Some Inr JArr show ?thesis
          by (simp add: try_bare_array_def plan_from_bare_array_def)
      next
        case (Cons a0 rest)
        with Some Inr JArr show ?thesis
          by (cases "js_prop a0 ''id''"; cases "js_prop a0 ''title''")
            (simp_all add: try_bare_array_def plan_from_bare_array_def truthy_prop_def)
      qed
    qed (use Some Inr in \<open>simp_all add: try_bare_array_def plan_from_bare_array_def\<close>)
  qed
qed

lemma parseTimeline_returned:
  "parseTimeline JSON_parse content =
     Inr (case returned (try_steps_object JSON_parse content) of
            Some steps \<Rightarrow> Some steps
          | None \<Rightarrow> returned (try_bare_array JSON_parse content))"
  by (cases "try_steps_object JSON_parse content" rule: returned.cases;
      cases "try_bare_array JSON_parse content" rule: returned.cases)
    (simp_all add: parseTimeline_def)

text \<open>
  Claim C7 (as amended). \<^verbatim>\<open>parseTimeline\<close> never throws, and its result is exactly
  this. A pattern is matched at the leftmost position of the text that has a match, and
  there is no match only when no position has one. When the leftmost match of the
  steps-object pattern parses to an object whose \<open>steps\<close> member is an array without
  a null element and with a step that has four fields of the right primitive types, the
  plan is exactly the steps of that array that have them, in order. In every other case
  (no match, a parse exception, no array, a null element, no step left) the plan is
  what the bare-array fallback gives: the whole parsed array, on the sole condition that
  it is not empty and that the \<open>id\<close> and the \<open>title\<close> of its first element are
  truthy; its steps are not validated further. Otherwise the result is null.
\<close>

theorem parseTimeline_never_throws:
  "parseTimeline JSON_parse content =
     Inr (case plan_from_steps_object JSON_parse content of
            Some steps \<Rightarrow> Some steps
          | None \<Rightarrow> plan_from_bare_array JSON_parse content) \<and>
   (\<forall>steps. plan_from_steps_object JSON_parse content = Some steps \<longrightarrow>
      steps \<noteq> [] \<and> (\<forall>s \<in> set steps. valid_step s)) \<and>
   (\<forall>r m. str_match r content = Some m \<longrightarrow>
      (\<exists>pre post. content = pre @ m @ post \<and> rx_match r (m @ post) = Some (length m) \<and>
         (\<forall>k<length pre. rx_match r (drop k content) = None))) \<and>
   (\<forall>r. str_match r content = None \<longleftrightarrow>
      (\<forall>k\<le>length content. rx_match r (drop k content) = None))"
proof (intro conjI allI impI)
  show "parseTimeline JSON_parse content =
     Inr (case plan_from_steps_object JSON_parse content of
            Some steps \<Rightarrow> Some steps
          | None \<Rightarrow> plan_from_bare_array JSON_parse content)"
    by (simp only: parseTimeline_returned try_steps_object_returned try_bare_array_returned)
next
  fix steps
  assume "plan_from_steps_object JSON_parse content = Some steps"
  then obtain ss where "steps = filter valid_step ss" and "filter valid_step ss \<noteq> []"
    by (auto simp: plan_from_steps_object_def
        split: option.splits sum.splits json.splits if_splits)
  then show "steps \<noteq> []" and "\<forall>s \<in> set steps. valid_step s" by auto
next
  fix r m
  assume "str_match r content = Some m"
  then show "\<exists>pre post. content = pre @ m @ post \<and>
      rx_match r (m @ post) = Some (length m) \<and>
      (\<forall>k<length pre. rx_match r (drop k content) = None)"
    by (rule str_match_leftmost)
next
  fix r
  show "str_match r content = None \<longleftrightarrow>
      (\<forall>k\<le>length content. rx_match r (drop k content) = None)"
    by (rule str_match_None)
qed

text \<open>The planner output of the specification, and an output whose only step has a text
  where the number of its \<open>id\<close> should be.\<close>

definition plan_text :: string where
  \<open>plan_text = ''{"steps":[{"id":1,"title":"Search","action":"search","description":"find X"},{"id":2,"title":"Answer","action":"final_answer","description":"reply"}]}''\<close>

definition plan_output :: string where
  "plan_output = ''I will search, then answer. '' @ plan_text"

definition plan_steps :: "json list" where
  "plan_steps =
     [JObj [(''id'', JNum 1), (''title'', JStr ''Search''), (''action'', JStr ''search''),
            (''description'', JStr ''find X'')],
      JObj [(''id'', JNum 2), (''title'', JStr ''Answer''), (''action'', JStr ''final_answer''),
            (''description'', JStr ''reply'')]]"

definition loose_array_text :: string where
  \<open>loose_array_text = ''[{"id":"1","title":"Search","action":"search","description":"find X"}]''\<close>

definition loose_text :: string where
  \<open>loose_text = ''{"steps":'' @ loose_array_text @ ''}''\<close>

definition loose_steps :: "json list" where
  "loose_steps =
     [JObj [(''id'', JStr ''1''), (''title'', JStr ''Search''), (''action'', JStr ''search''),
            (''description'', JStr ''find X'')]]"

text \<open>\<^verbatim>\<open>JSON.parse\<close> on the texts that the two examples hand to it.\<close>

definition plan_parse :: "string \<Rightarrow> string + json" where
  "plan_parse s =
     (if s = plan_text then Inr (JObj [(''steps'', JArr plan_steps)])
      else if s = loose_text then Inr (JObj [(''steps'', JArr loose_steps)])
      else if s = loose_array_text then Inr (JArr loose_steps)
      else Inl ''SyntaxError'')"

lemma plan_text_match:
  "str_match steps_object_rx plan_output = Some plan_text"
  by code_simp

lemma loose_text_match:
  "str_match steps_object_rx loose_text = Some loose_text \<and>
   str_match array_rx loose_text = Some loose_array_text"
  by code_simp

lemma plan_parse_simps:
  "plan_parse plan_text = Inr (JObj [(''steps'', JArr plan_steps)])"
  "plan_parse loose_text = Inr (JObj [(''steps'', JArr loose_steps)])"
  "plan_parse loose_array_text = Inr (JArr loose_steps)"
  by (simp_all add: plan_parse_def plan_text_def loose_text_def loose_array_text_def)

theorem parseTimeline_never_throws_witness:
  "parseTimeline plan_parse plan_output = Inr (Some plan_steps) \<and>
   plan_from_steps_object plan_parse plan_output = Some plan_steps \<and>
   list_all valid_step plan_steps \<and>
   str_match steps_object_rx plan_output = Some plan_text"
proof -
  have 1: "plan_from_steps_object plan_parse plan_output = Some plan_steps"
    by (simp add: plan_from_steps_object_def plan_text_match plan_parse_simps)
      (simp add: plan_steps_def valid_step_def)
  from parseTimeline_never_throws [of plan_parse plan_output] 1 plan_text_match
  show ?thesis by (simp add: list_all_iff)
qed

text \<open>
  Claim C7 as stated fails in its last part: the step whose \<open>id\<close> is a text is
  rejected by the validation of the first path, which leaves no step; the fallback then
  matches the array inside the same output and returns it unvalidated.
\<close>

theorem parseTimeline_unvalidated_counterexample:
  "try_steps_object plan_parse loose_text = Inr None \<and>
   parseTimeline plan_parse loose_text = Inr (Some loose_steps) \<and>
   \<not> list_all valid_step loose_steps"
proof -
  have 1: "try_steps_object plan_parse loose_text = Inr None"
    by (simp add: try_steps_object_def loose_text_match plan_parse_simps)
      (simp add: loose_steps_def step_ok_def)
  have 2: "try_bare_array plan_parse loose_text = Inr (Some loose_steps)"
    by (simp add: try_bare_array_def loose_text_match plan_parse_simps)
      (simp add: loose_steps_def)
  have 3: "\<not> list_all valid_step loose_steps"
    by (simp add: loose_steps_def valid_step_def)
  from 1 2 3 show ?thesis by (simp add: parseTimeline_def)
qed

text \<open>
  The no-break space is white space for \<^verbatim>\<open>\s\<close>: after the plan of the specification,
  a bracket, a no-break space and a brace extend the leftmost match to the end of the
  text, which does not parse, and neither does the match of the fallback.
\<close>

definition nbsp_tail :: string where
  "nbsp_tail = [CHR '' '', CHR '']'', CHR 0xA0, CHR ''}'']"

lemma nbsp_tail_match:
  "str_match steps_object_rx (plan_text @ nbsp_tail) = Some (plan_text @ nbsp_tail) \<and>
   str_match array_rx (plan_text @ nbsp_tail) =
     Some (drop 9 plan_text @ [CHR '' '', CHR '']''])"
  by code_simp

lemma parseTimeline_nbsp_tail:
  "parseTimeline plan_parse (plan_text @ nbsp_tail) = Inr None"
proof -
  have "plan_parse (plan_text @ nbsp_tail) = Inl ''SyntaxError''"
    by code_simp
  moreover have "plan_parse (drop 9 plan_text @ [CHR '' '', CHR '']'']) = Inl ''SyntaxError''"
    by code_simp
  ultimately show ?thesis
    by (simp add: parseTimeline_def try_steps_object_def try_bare_array_def nbsp_tail_match)
qed

end
